theory Spec2Isabelle
  imports Main
begin

section \<open>HgRepositoryClient: data model\<close>

text \<open>
  A shallow embedding of \<^verbatim>\<open>pkg/nuclide-hg-repository-client/lib/HgRepositoryClient.js\<close>.
  The shared mutable object \<^verbatim>\<open>_sharedMembers\<close> is a record that every operation takes
  and returns. What the backend service delivers (an observable's emissions, a
  promise's outcome) is an argument of the operation that consumes it.
\<close>

subsection \<open>Constants of hg-constants\<close>

text \<open>
  \<^verbatim>\<open>StatusCodeNumber\<close> and \<^verbatim>\<open>StatusCodeIdToNumber\<close> are imported from
  \<^verbatim>\<open>nuclide-hg-rpc/lib/hg-constants\<close>, which is not part of the source at hand.
  They are taken as a parameter: the numeric code of each status name, and the table
  from a status id to its number.
\<close>

record hg_constants =
  ADDED :: int
  CLEAN :: int
  IGNORED :: int
  MODIFIED :: int
  MISSING :: int
  REMOVED :: int
  UNTRACKED :: int
  StatusCodeIdToNumber :: "string \<Rightarrow> int"

subsection \<open>Observables and promises\<close>

text \<open>
  A finite observable: the values it emits, in order, and whether it then ends with an
  error (\<open>failed\<close>) or completes.
\<close>

datatype 'a observable = Observable (emissions: "'a list") (failed: bool)

definition obs_empty :: "'a observable" where
  "obs_empty = Observable [] False"

definition obs_of :: "'a \<Rightarrow> 'a observable" where
  "obs_of x = Observable [x] False"

definition obs_map :: "('a \<Rightarrow> 'b) \<Rightarrow> 'a observable \<Rightarrow> 'b observable" where
  "obs_map f src = Observable (map f (emissions src)) (failed src)"

text \<open>\<^verbatim>\<open>.catch(error => handler)\<close>: on an error the handler's observable takes over.\<close>

definition obs_catch :: "'a observable \<Rightarrow> 'a observable \<Rightarrow> 'a observable" where
  "obs_catch src handler =
     (if failed src
      then Observable (emissions src @ emissions handler) (failed handler)
      else src)"

text \<open>
  \<^verbatim>\<open>.retry(n)\<close>: on an error, subscribe to the source again, at most \<open>n\<close> more times.
  The source is deferred, so each subscription is a new attempt: \<open>src i\<close> is what the
  \<open>i\<close>-th subscription delivers.
\<close>

fun obs_retry :: "nat \<Rightarrow> (nat \<Rightarrow> 'a observable) \<Rightarrow> nat \<Rightarrow> 'a observable" where
  "obs_retry 0 src i = src i"
| "obs_retry (Suc n) src i =
     (if failed (src i)
      then Observable (emissions (src i) @ emissions (obs_retry n src (Suc i)))
             (failed (obs_retry n src (Suc i)))
      else src i)"

text \<open>
  \<^verbatim>\<open>LegacyProcessMessage\<close>: the messages of a backend command. Only \<^verbatim>\<open>kind\<close> and
  \<^verbatim>\<open>exitCode\<close> are read by this file.
\<close>

datatype LegacyProcessMessage =
    Stdout string
  | Stderr string
  | Exit "int option"
  | ProcessError

subsection \<open>Bounded caches\<close>

text \<open>
  Modelled from the spec: the \<^verbatim>\<open>lru-cache\<close> library (\<^verbatim>\<open>LRU\<close>, constructed with
  \<^verbatim>\<open>{max: n}\<close>) is missing from the source. The spec describes it as a fixed-capacity,
  recency-ordered cache with get/set/evict-oldest semantics: a lookup or an insertion makes
  the key the most recently used one, and an insertion beyond the capacity evicts the
  least recently used entries. The entries are kept most recently used first.
\<close>

record ('k, 'v) LRUCache =
  lru_max :: nat
  lru_entries :: "('k \<times> 'v) list"

definition LRU :: "nat \<Rightarrow> ('k, 'v) LRUCache" where
  "LRU n = \<lparr>lru_max = n, lru_entries = []\<rparr>"

definition lru_peek :: "('k, 'v) LRUCache \<Rightarrow> 'k \<Rightarrow> 'v option" where
  "lru_peek c k = map_of (lru_entries c) k"

definition lru_get :: "'k \<Rightarrow> ('k, 'v) LRUCache \<Rightarrow> 'v option \<times> ('k, 'v) LRUCache" where
  "lru_get k c =
     (case lru_peek c k of
        None \<Rightarrow> (None, c)
      | Some v \<Rightarrow>
          (Some v, c\<lparr>lru_entries := (k, v) # filter (\<lambda>e. fst e \<noteq> k) (lru_entries c)\<rparr>))"

definition lru_set :: "'k \<Rightarrow> 'v \<Rightarrow> ('k, 'v) LRUCache \<Rightarrow> ('k, 'v) LRUCache" where
  "lru_set k v c =
     c\<lparr>lru_entries := take (lru_max c) ((k, v) # filter (\<lambda>e. fst e \<noteq> k) (lru_entries c))\<rparr>"

definition lru_reset :: "('k, 'v) LRUCache \<Rightarrow> ('k, 'v) LRUCache" where
  "lru_reset c = c\<lparr>lru_entries := []\<rparr>"

subsection \<open>The shared members\<close>

record LineDiff =
  oldStart :: int
  oldLines :: int
  newStart :: int
  newLines :: int

record DiffInfo =
  added :: int
  deleted :: int
  lineDiffs :: "LineDiff list"

record BookmarkInfo =
  active :: bool
  bookmark :: string

record bookmarks_value =
  isLoading :: bool
  bookmarks_list :: "BookmarkInfo list"

text \<open>
  The fields of \<^verbatim>\<open>_sharedMembers\<close> that the operations below read or write.
  \<^item> \<open>repoSubscriptions\<close>: the settled value of the promise: \<open>None\<close> when the
    subscription failed (the \<^verbatim>\<open>catch\<close> returns \<^verbatim>\<open>null\<close>), otherwise whether the
    subscriptions object has been disposed.
  \<^item> \<open>subscriptions_disposed\<close>: whether the \<^verbatim>\<open>UniversalDisposable\<close> holding the
    emitter, the service and the pipeline subscriptions has been disposed.
  \<^item> \<open>emitted\<close>: the events passed to \<^verbatim>\<open>emitter.emit\<close>, oldest first.
  \<^item> \<open>fileContentsAtRevisionIds\<close> holds references to \<^verbatim>\<open>Map\<close> objects, which
    are mutated after they were looked up: the cache stores an address and
    \<open>contentMaps\<close> is the store of those objects, \<open>nextMap\<close> the next free address.
  \<^item> \<open>isFetchingPathStatuses\<close>: the values sent to that subject, oldest first.
  \<^item> \<open>revisionsCache_refreshes\<close>: the number of calls of
    \<^verbatim>\<open>revisionsCache.refreshRevisions\<close>.
  The type \<open>'c\<close> is \<^verbatim>\<open>RevisionFileChanges\<close>, declared in the backend.
\<close>

record 'c sharedMembers =
  path :: string
  workingDirectory :: string
  repoSubscriptions :: "bool option"
  subscriptions_disposed :: bool
  emitted :: "string list"
  hgStatusCache :: "string \<rightharpoonup> int"
  hgDiffCache :: "string \<rightharpoonup> DiffInfo"
  hgDiffCacheFilesUpdating :: "string set"
  hgDiffCacheFilesToClear :: "string set"
  revisionsCache_refreshes :: nat
  revisionIdToFileChanges :: "(string, 'c) LRUCache"
  fileContentsAtRevisionIds :: "(string, nat) LRUCache"
  contentMaps :: "nat \<Rightarrow> (string \<rightharpoonup> string)"
  nextMap :: nat
  fileContentsAtHead :: "(string, string) LRUCache"
  currentHeadId :: "string option"
  bookmarks :: bookmarks_value
  isInConflict :: bool
  isDestroyed :: bool
  isFetchingPathStatuses :: "bool list"

text \<open>
  The constructor (lines 196-236), up to the subscriptions it sets up: \<open>subs\<close> is what
  \<^verbatim>\<open>createRepositorySubscriptions().catch(...)\<close> settles to.
\<close>

definition constructor :: "string \<Rightarrow> string \<Rightarrow> bool option \<Rightarrow> 'c sharedMembers" where
  "constructor repoPath workingDir subs =
     \<lparr>path = repoPath,
      workingDirectory = workingDir,
      repoSubscriptions = subs,
      subscriptions_disposed = False,
      emitted = [],
      hgStatusCache = Map.empty,
      hgDiffCache = Map.empty,
      hgDiffCacheFilesUpdating = {},
      hgDiffCacheFilesToClear = {},
      revisionsCache_refreshes = 0,
      revisionIdToFileChanges = LRU 100,
      fileContentsAtRevisionIds = LRU 20,
      contentMaps = (\<lambda>_. Map.empty),
      nextMap = 0,
      fileContentsAtHead = LRU 30,
      currentHeadId = None,
      bookmarks = \<lparr>isLoading = True, bookmarks_list = []\<rparr>,
      isInConflict = False,
      isDestroyed = False,
      isFetchingPathStatuses = []\<rparr>"

definition emit :: "string \<Rightarrow> 'c sharedMembers \<Rightarrow> 'c sharedMembers" where
  "emit ev s = s\<lparr>emitted := emitted s @ [ev]\<rparr>"

section \<open>Reading status\<close>

text \<open>
  A status argument has the type \<^verbatim>\<open>?number\<close>. \<^verbatim>\<open>!filePath\<close> holds for \<^verbatim>\<open>null\<close> and
  for the empty string; \<^verbatim>\<open>!cachedPathStatus\<close> holds for a missing entry and for \<open>0\<close>.
\<close>

definition isStatusModified :: "hg_constants \<Rightarrow> int option \<Rightarrow> bool" where
  "isStatusModified K status = (status = Some (MODIFIED K))"

definition isStatusDeleted :: "hg_constants \<Rightarrow> int option \<Rightarrow> bool" where
  "isStatusDeleted K status = (status = Some (MISSING K) \<or> status = Some (REMOVED K))"

definition isStatusNew :: "hg_constants \<Rightarrow> int option \<Rightarrow> bool" where
  "isStatusNew K status = (status = Some (ADDED K) \<or> status = Some (UNTRACKED K))"

definition isStatusAdded :: "hg_constants \<Rightarrow> int option \<Rightarrow> bool" where
  "isStatusAdded K status = (status = Some (ADDED K))"

definition isStatusUntracked :: "hg_constants \<Rightarrow> int option \<Rightarrow> bool" where
  "isStatusUntracked K status = (status = Some (UNTRACKED K))"

definition isStatusIgnored :: "hg_constants \<Rightarrow> int option \<Rightarrow> bool" where
  "isStatusIgnored K status = (status = Some (IGNORED K))"

definition falsy_path :: "string option \<Rightarrow> bool" where
  "falsy_path filePath = (case filePath of None \<Rightarrow> True | Some p \<Rightarrow> p = [])"

definition falsy_status :: "int option \<Rightarrow> bool" where
  "falsy_status status = (case status of None \<Rightarrow> True | Some c \<Rightarrow> c = 0)"

definition cached_status :: "'c sharedMembers \<Rightarrow> string option \<Rightarrow> int option" where
  "cached_status s filePath = (case filePath of None \<Rightarrow> None | Some p \<Rightarrow> hgStatusCache s p)"

definition getPath :: "'c sharedMembers \<Rightarrow> string" where
  "getPath s = path s"

text \<open>\<^verbatim>\<open>str.indexOf(t) === 0\<close>: \<open>t\<close> occurs in \<open>str\<close> at position 0.\<close>

definition indexOf_is_0 :: "string \<Rightarrow> string \<Rightarrow> bool" where
  "indexOf_is_0 str t = (take (length t) str = t)"

definition isPathWithinHgRepo :: "'c sharedMembers \<Rightarrow> string \<Rightarrow> bool" where
  "isPathWithinHgRepo s filePath =
     (filePath = getPath s \<or> indexOf_is_0 filePath (getPath s @ ''/''))"

definition isPathModified :: "hg_constants \<Rightarrow> 'c sharedMembers \<Rightarrow> string option \<Rightarrow> bool" where
  "isPathModified K s filePath =
     (if falsy_path filePath then False
      else let cachedPathStatus = cached_status s filePath in
        if falsy_status cachedPathStatus then False
        else isStatusModified K cachedPathStatus)"

definition isPathNew :: "hg_constants \<Rightarrow> 'c sharedMembers \<Rightarrow> string option \<Rightarrow> bool" where
  "isPathNew K s filePath =
     (if falsy_path filePath then False
      else let cachedPathStatus = cached_status s filePath in
        if falsy_status cachedPathStatus then False
        else isStatusNew K cachedPathStatus)"

definition isPathAdded :: "hg_constants \<Rightarrow> 'c sharedMembers \<Rightarrow> string option \<Rightarrow> bool" where
  "isPathAdded K s filePath =
     (if falsy_path filePath then False
      else let cachedPathStatus = cached_status s filePath in
        if falsy_status cachedPathStatus then False
        else isStatusAdded K cachedPathStatus)"

definition isPathUntracked :: "hg_constants \<Rightarrow> 'c sharedMembers \<Rightarrow> string option \<Rightarrow> bool" where
  "isPathUntracked K s filePath =
     (if falsy_path filePath then False
      else let cachedPathStatus = cached_status s filePath in
        if falsy_status cachedPathStatus then False
        else isStatusUntracked K cachedPathStatus)"

definition isPathIgnored :: "hg_constants \<Rightarrow> 'c sharedMembers \<Rightarrow> string option \<Rightarrow> bool" where
  "isPathIgnored K s filePath =
     (if falsy_path filePath then False
      else let cachedPathStatus = cached_status s filePath in
        if falsy_status cachedPathStatus then isPathWithinHgRepo s (the filePath)
        else isStatusIgnored K cachedPathStatus)"

definition getCachedPathStatus :: "hg_constants \<Rightarrow> 'c sharedMembers \<Rightarrow> string option \<Rightarrow> int" where
  "getCachedPathStatus K s filePath =
     (if falsy_path filePath then CLEAN K
      else case cached_status s filePath of
             None \<Rightarrow> CLEAN K
           | Some cachedStatus \<Rightarrow> if cachedStatus = 0 then CLEAN K else cachedStatus)"

definition getPathStatus :: "hg_constants \<Rightarrow> 'c sharedMembers \<Rightarrow> string \<Rightarrow> int" where
  "getPathStatus K s filePath = getCachedPathStatus K s (Some filePath)"

subsection \<open>An instance of the constants\<close>

text \<open>
  An instance of the parameter \<open>hg_constants\<close>, with pairwise distinct non-zero codes,
  for evaluating the operations on concrete inputs.
\<close>

definition sample_constants :: hg_constants where
  "sample_constants =
     \<lparr>ADDED = 1, CLEAN = 2, IGNORED = 3, MODIFIED = 4, MISSING = 5, REMOVED = 6,
      UNTRACKED = 7,
      StatusCodeIdToNumber = (\<lambda>v.
        if v = ''A'' then 1 else if v = ''C'' then 2 else if v = ''I'' then 3
        else if v = ''M'' then 4 else if v = ''!'' then 5 else if v = ''R'' then 6
        else if v = ''?'' then 7 else 8)\<rparr>"

section \<open>Cache invalidation and mutating operations\<close>

text \<open>
  \<^verbatim>\<open>_clearClientCache\<close> (lines 1401-1419). With paths, both maps are copied and each
  path is deleted from both; without, both maps are replaced by empty ones and the
  head-content cache is reset. Either way \<^verbatim>\<open>did-change-statuses\<close> is emitted.
\<close>

definition clearClientCache :: "string list \<Rightarrow> 'c sharedMembers \<Rightarrow> 'c sharedMembers" where
  "clearClientCache filePaths s =
     emit ''did-change-statuses''
       (if length filePaths = 0
        then s\<lparr>hgDiffCache := Map.empty,
               hgStatusCache := Map.empty,
               fileContentsAtHead := lru_reset (fileContentsAtHead s)\<rparr>
        else fold (\<lambda>filePath s'.
                     s'\<lparr>hgDiffCache := (hgDiffCache s')(filePath := None),
                        hgStatusCache := (hgStatusCache s')(filePath := None)\<rparr>)
               filePaths s)"

text \<open>\<^verbatim>\<open>_clearOnSuccessExit\<close> (lines 1335-1342).\<close>

definition clearOnSuccessExit ::
  "LegacyProcessMessage \<Rightarrow> string list \<Rightarrow> 'c sharedMembers \<Rightarrow> 'c sharedMembers" where
  "clearOnSuccessExit message filePaths s =
     (case message of
        Exit exitCode \<Rightarrow> if exitCode = Some 0 then clearClientCache filePaths s else s
      | _ \<Rightarrow> s)"

text \<open>
  \<^verbatim>\<open>.do(f)\<close> runs \<open>f\<close> on every value the observable emits and passes the observable on.
\<close>

definition obs_do ::
  "('a \<Rightarrow> 's \<Rightarrow> 's) \<Rightarrow> 'a observable \<Rightarrow> 's \<Rightarrow> 'a observable \<times> 's" where
  "obs_do f src s = (src, fold f (emissions src) s)"

text \<open>
  The mutating operations. Each takes what the backend call delivers (\<open>service\<close>: the
  messages of the command, or for a promise whether it was fulfilled) and returns that
  together with the shared members afterwards. \<^verbatim>\<open>commit\<close> (1295-1306) and \<^verbatim>\<open>amend\<close>
  (1308-1320) attach \<^verbatim>\<open>_clearOnSuccessExit\<close>; the others hand the backend's result on.
\<close>

definition commit ::
  "string \<Rightarrow> string list \<Rightarrow> LegacyProcessMessage observable \<Rightarrow> 'c sharedMembers
     \<Rightarrow> LegacyProcessMessage observable \<times> 'c sharedMembers" where
  "commit message filePaths service s =
     obs_do (\<lambda>processMessage. clearOnSuccessExit processMessage filePaths) service s"

definition amend ::
  "string option \<Rightarrow> string \<Rightarrow> string list \<Rightarrow> LegacyProcessMessage observable
     \<Rightarrow> 'c sharedMembers \<Rightarrow> LegacyProcessMessage observable \<times> 'c sharedMembers" where
  "amend message amendMode filePaths service s =
     obs_do (\<lambda>processMessage. clearOnSuccessExit processMessage filePaths) service s"

definition revert ::
  "string list \<Rightarrow> string option \<Rightarrow> bool \<Rightarrow> 'c sharedMembers \<Rightarrow> bool \<times> 'c sharedMembers" where
  "revert filePaths toRevision service s = (service, s)"

definition checkoutHead :: "string list \<Rightarrow> bool \<Rightarrow> 'c sharedMembers \<Rightarrow> bool \<times> 'c sharedMembers" where
  "checkoutHead filePaths service s = (service, s)"

definition checkoutReference ::
  "string \<Rightarrow> bool \<Rightarrow> LegacyProcessMessage observable \<Rightarrow> 'c sharedMembers
     \<Rightarrow> LegacyProcessMessage observable \<times> 'c sharedMembers" where
  "checkoutReference reference create service s = (service, s)"

definition rebase ::
  "string \<Rightarrow> string option \<Rightarrow> LegacyProcessMessage observable \<Rightarrow> 'c sharedMembers
     \<Rightarrow> LegacyProcessMessage observable \<times> 'c sharedMembers" where
  "rebase destination source service s = (service, s)"

definition pull ::
  "string list \<Rightarrow> LegacyProcessMessage observable \<Rightarrow> 'c sharedMembers
     \<Rightarrow> LegacyProcessMessage observable \<times> 'c sharedMembers" where
  "pull options service s = (service, s)"

definition createBookmark ::
  "string \<Rightarrow> string option \<Rightarrow> bool \<Rightarrow> 'c sharedMembers \<Rightarrow> bool \<times> 'c sharedMembers" where
  "createBookmark name revision service s = (service, s)"

definition deleteBookmark :: "string \<Rightarrow> bool \<Rightarrow> 'c sharedMembers \<Rightarrow> bool \<times> 'c sharedMembers" where
  "deleteBookmark name service s = (service, s)"

definition renameBookmark ::
  "string \<Rightarrow> string \<Rightarrow> bool \<Rightarrow> 'c sharedMembers \<Rightarrow> bool \<times> 'c sharedMembers" where
  "renameBookmark name nextName service s = (service, s)"

text \<open>
  A state with one modified file in the status cache and in the diff cache, for
  evaluating the operations.
\<close>

definition sample_state :: "unit sharedMembers" where
  "sample_state =
     (constructor ''/repo/.hg'' ''/repo'' (Some False))
       \<lparr>hgStatusCache := [''/repo/a.txt'' \<mapsto> 4],
        hgDiffCache := [''/repo/a.txt'' \<mapsto> \<lparr>added = 1, deleted = 0, lineDiffs = []\<rparr>]\<rparr>"

section \<open>Lifecycle\<close>

text \<open>
  \<^verbatim>\<open>destroy\<close> (lines 480-494). The callback on \<^verbatim>\<open>repoSubscriptions\<close> disposes the
  subscriptions object unless the promise settled to \<^verbatim>\<open>null\<close>.
\<close>

definition destroy :: "'c sharedMembers \<Rightarrow> 'c sharedMembers" where
  "destroy s =
     (if isDestroyed s then s
      else
        let s1 = s\<lparr>isDestroyed := True\<rparr>;
            s2 = emit ''did-destroy'' s1;
            s3 = s2\<lparr>subscriptions_disposed := True\<rparr>;
            s4 = s3\<lparr>revisionIdToFileChanges := lru_reset (revisionIdToFileChanges s3)\<rparr>;
            s5 = s4\<lparr>fileContentsAtRevisionIds := lru_reset (fileContentsAtRevisionIds s4)\<rparr>
        in s5\<lparr>repoSubscriptions :=
                 (case repoSubscriptions s5 of None \<Rightarrow> None | Some disposed \<Rightarrow> Some True)\<rparr>)"

definition conflictStateChanged :: "bool \<Rightarrow> 'c sharedMembers \<Rightarrow> 'c sharedMembers" where
  "conflictStateChanged inConflict s =
     emit ''did-change-conflict-state'' (s\<lparr>isInConflict := inConflict\<rparr>)"

section \<open>Bookmark refresh\<close>

text \<open>
  One attempt \<^verbatim>\<open>Observable.fromPromise(service.fetchBookmarks()).timeout(FETCH_BOOKMARKS_TIMEOUT)\<close>:
  the promise is fulfilled in time, is rejected, or is not settled when the timeout fires.
\<close>

datatype 'a attempt = Resolved 'a | Rejected | TimedOut

definition fromPromise_timeout :: "'a attempt \<Rightarrow> 'a observable" where
  "fromPromise_timeout p =
     (case p of
        Resolved v \<Rightarrow> obs_of v
      | Rejected \<Rightarrow> Observable [] True
      | TimedOut \<Rightarrow> Observable [] True)"

text \<open>
  The inner observable of \<^verbatim>\<open>bookmarksUpdates\<close> for one debounced trigger (lines 367-381):
  \<open>fetchBookmarks i\<close> is the outcome of the \<open>i\<close>-th call of the backend after the trigger.
\<close>

definition bookmarksUpdates :: "(nat \<Rightarrow> BookmarkInfo list attempt) \<Rightarrow> BookmarkInfo list observable" where
  "bookmarksUpdates fetchBookmarks =
     obs_catch (obs_retry 2 (\<lambda>i. fromPromise_timeout (fetchBookmarks i)) 0) obs_empty"

text \<open>The subscriber of \<^verbatim>\<open>bookmarksUpdates\<close> (lines 385-387).\<close>

definition bookmarks_next :: "BookmarkInfo list \<Rightarrow> 'c sharedMembers \<Rightarrow> 'c sharedMembers" where
  "bookmarks_next bs s = s\<lparr>bookmarks := \<lparr>isLoading = False, bookmarks_list = bs\<rparr>\<rparr>"

definition onBookmarksTrigger ::
  "(nat \<Rightarrow> BookmarkInfo list attempt) \<Rightarrow> 'c sharedMembers \<Rightarrow> 'c sharedMembers" where
  "onBookmarksTrigger fetchBookmarks s =
     fold bookmarks_next (emissions (bookmarksUpdates fetchBookmarks)) s"

text \<open>A backend whose bookmark fetch is rejected every time.\<close>

definition rejecting_fetchBookmarks :: "nat \<Rightarrow> BookmarkInfo list attempt" where
  "rejecting_fetchBookmarks i = Rejected"

text \<open>A backend whose bookmark fetch succeeds at the third call.\<close>

definition third_time_lucky :: "nat \<Rightarrow> BookmarkInfo list attempt" where
  "third_time_lucky i = (if i < 2 then Rejected else Resolved [])"

section \<open>Status pipelines\<close>

text \<open>
  Modelled from the spec: \<^verbatim>\<open>mapTransform\<close> of \<^verbatim>\<open>nuclide-commons/collection\<close> is missing
  from the source. By the spec's scenario, a fetched snapshot gives every path of the
  snapshot the value computed from its entry, here the numeric code of its status id.
\<close>

definition mapTransform :: "('v \<Rightarrow> 'k \<Rightarrow> 'w) \<Rightarrow> ('k \<rightharpoonup> 'v) \<Rightarrow> ('k \<rightharpoonup> 'w)" where
  "mapTransform f m = (\<lambda>k. case m k of None \<Rightarrow> None | Some v \<Rightarrow> Some (f v k))"

text \<open>
  \<^verbatim>\<open>_observeStatus\<close> is instantiated three times (lines 330-346). Only the uncommitted
  channel has a subscriber in this file (lines 348-353): it replaces the status cache and
  emits \<^verbatim>\<open>did-change-statuses\<close>.
\<close>

datatype channel = Uncommitted | Stack | Head

definition statusChangesSubscriber ::
  "channel \<Rightarrow> (string \<rightharpoonup> int) \<Rightarrow> 'c sharedMembers \<Rightarrow> 'c sharedMembers" where
  "statusChangesSubscriber ch statuses s =
     (case ch of
        Uncommitted \<Rightarrow> emit ''did-change-statuses'' (s\<lparr>hgStatusCache := statuses\<rparr>)
      | Stack \<Rightarrow> s
      | Head \<Rightarrow> s)"

text \<open>
  One debounced trigger of \<^verbatim>\<open>statusChanges\<close> (lines 449-467): \<open>fetched\<close> is what
  \<^verbatim>\<open>fetchStatuses().refCount()\<close> delivers. The result says whether the inner observable
  ended with an error, which \<^verbatim>\<open>switchMap\<close> would pass on to \<^verbatim>\<open>statusChanges\<close>.
\<close>

definition onStatusTrigger ::
  "hg_constants \<Rightarrow> channel \<Rightarrow> (string \<rightharpoonup> string) observable \<Rightarrow> 'c sharedMembers
     \<Rightarrow> bool \<times> 'c sharedMembers" where
  "onStatusTrigger K ch fetched s =
     (let s1 = s\<lparr>isFetchingPathStatuses := isFetchingPathStatuses s @ [True]\<rparr>;
          caught = obs_catch fetched obs_empty;
          mapped = obs_map (mapTransform (\<lambda>v k. StatusCodeIdToNumber K v)) caught;
          s2 = fold (statusChangesSubscriber ch) (emissions mapped) s1;
          s3 = s2\<lparr>isFetchingPathStatuses := isFetchingPathStatuses s2 @ [False]\<rparr>
      in (failed mapped, s3))"

text \<open>
  The stream over a sequence of debounced triggers, each with what its fetch delivers.
  An error of an inner observable ends the stream: the triggers after it are not handled.
\<close>

fun statusChanges ::
  "hg_constants \<Rightarrow> channel \<Rightarrow> (string \<rightharpoonup> string) observable list \<Rightarrow> 'c sharedMembers
     \<Rightarrow> bool \<times> 'c sharedMembers" where
  "statusChanges K ch [] s = (False, s)"
| "statusChanges K ch (fetched # later) s =
     (case onStatusTrigger K ch fetched s of
        (True, s') \<Rightarrow> (True, s')
      | (False, s') \<Rightarrow> statusChanges K ch later s')"

text \<open>
  \<^verbatim>\<open>isCalculatingChanges\<close> (lines 470-475), the in-flight stream that \<^verbatim>\<open>_observeStatus\<close>
  returns with \<^verbatim>\<open>statusChanges\<close>: \<open>True\<close> for every trigger merged with \<open>False\<close> for
  every value of \<^verbatim>\<open>statusChanges\<close>, and of these only the values that differ from the
  one before. A trigger is delivered before the values of its fetch; after an error of
  an inner observable nothing would follow.
\<close>

fun isCalculatingChanges_merged ::
  "hg_constants \<Rightarrow> (string \<rightharpoonup> string) observable list \<Rightarrow> bool list" where
  "isCalculatingChanges_merged K [] = []"
| "isCalculatingChanges_merged K (fetched # later) =
     True #
     map (\<lambda>_. False)
       (emissions (obs_map (mapTransform (\<lambda>v k. StatusCodeIdToNumber K v))
                     (obs_catch fetched obs_empty)))
     @ (if failed (obs_map (mapTransform (\<lambda>v k. StatusCodeIdToNumber K v))
                     (obs_catch fetched obs_empty))
        then []
        else isCalculatingChanges_merged K later)"

definition obs_distinctUntilChanged :: "'a list \<Rightarrow> 'a list" where
  "obs_distinctUntilChanged xs = remdups_adj xs"

definition isCalculatingChanges ::
  "hg_constants \<Rightarrow> (string \<rightharpoonup> string) observable list \<Rightarrow> bool list" where
  "isCalculatingChanges K fetches =
     obs_distinctUntilChanged (isCalculatingChanges_merged K fetches)"

text \<open>A fetch that fails at once, and one that delivers a snapshot with one modified file.\<close>

definition failing_fetch :: "(string \<rightharpoonup> string) observable" where
  "failing_fetch = Observable [] True"

definition modified_fetch :: "(string \<rightharpoonup> string) observable" where
  "modified_fetch = Observable [[''/repo/b.txt'' \<mapsto> ''M'']] False"

section \<open>Diff cache\<close>

text \<open>
  What the diff updater gets from outside this file:
  \<^item> \<open>contains\<close>: \<^verbatim>\<open>workingDirectory.contains(filePath)\<close>;
  \<^item> \<open>getHeadId\<close>: what \<^verbatim>\<open>service.getHeadId().refCount()\<close> delivers (\<open>None\<close> is
    \<^verbatim>\<open>null\<close>, which line 944 checks for);
  \<^item> \<open>service_fetchFileContentAtRevision\<close>: what the backend delivers for a path and a
    revision;
  \<^item> \<open>gitDiffContentAgainstFile\<close> (from \<^verbatim>\<open>./utils\<close>): the diff of a content against the
    file on disk;
  \<^item> \<open>parseDiff\<close>: lines 1009-1010, \<^verbatim>\<open>parseHgDiffUnifiedOutput(diff.split('--- ')[1])\<close>.
\<close>

record diff_backend =
  contains :: "string \<Rightarrow> bool"
  getHeadId :: "string option observable"
  service_fetchFileContentAtRevision :: "string \<Rightarrow> string \<Rightarrow> string observable"
  gitDiffContentAgainstFile :: "string \<Rightarrow> string \<Rightarrow> string observable"
  parseDiff :: "string \<Rightarrow> DiffInfo"

definition isPathRelevantToRepository :: "diff_backend \<Rightarrow> 'c sharedMembers \<Rightarrow> string \<Rightarrow> bool" where
  "isPathRelevantToRepository B s filePath =
     (contains B filePath \<or> workingDirectory s = filePath)"

text \<open>
  \<^verbatim>\<open>switchMap\<close> where every inner observable has ended before the next value arrives:
  the project function runs for each value in turn, on the state the earlier ones left;
  an inner error ends the result, and the values after it are not handled.
\<close>

fun obs_switchMap ::
  "('a \<Rightarrow> 's \<Rightarrow> 'b observable \<times> 's) \<Rightarrow> 'a list \<Rightarrow> bool \<Rightarrow> 's \<Rightarrow> 'b observable \<times> 's" where
  "obs_switchMap project [] fl s = (Observable [] fl, s)"
| "obs_switchMap project (x # xs) fl s =
     (case project x s of
        (inner, s1) \<Rightarrow>
          if failed inner then (Observable (emissions inner) True, s1)
          else (case obs_switchMap project xs fl s1 of
                  (later, s2) \<Rightarrow> (Observable (emissions inner @ emissions later) (failed later), s2)))"

text \<open>
  \<^verbatim>\<open>Observable.merge(...)\<close> of observables that run one after the other, in the order of
  the list; an error of one ends the result.
\<close>

fun obs_merge :: "('s \<Rightarrow> 'b observable \<times> 's) list \<Rightarrow> 's \<Rightarrow> 'b observable \<times> 's" where
  "obs_merge [] s = (Observable [] False, s)"
| "obs_merge (sub # subs) s =
     (case sub s of
        (first, s1) \<Rightarrow>
          if failed first then (Observable (emissions first) True, s1)
          else (case obs_merge subs s1 of
                  (later, s2) \<Rightarrow> (Observable (emissions first @ emissions later) (failed later), s2)))"

definition obs_toArray :: "'a observable \<Rightarrow> 'a list observable" where
  "obs_toArray src = (if failed src then Observable [] True else Observable [emissions src] False)"

text \<open>
  The filter of lines 925-937: a path outside the repository or already in the guard set
  is dropped; an accepted path is added to the guard set at once.
\<close>

fun pathsToFetch_filter ::
  "diff_backend \<Rightarrow> string list \<Rightarrow> 'c sharedMembers \<Rightarrow> string list \<times> 'c sharedMembers" where
  "pathsToFetch_filter B [] s = ([], s)"
| "pathsToFetch_filter B (aPath # rest) s =
     (if \<not> isPathRelevantToRepository B s aPath then pathsToFetch_filter B rest s
      else if aPath \<in> hgDiffCacheFilesUpdating s then pathsToFetch_filter B rest s
      else (case pathsToFetch_filter B rest
                   (s\<lparr>hgDiffCacheFilesUpdating := insert aPath (hgDiffCacheFilesUpdating s)\<rparr>) of
              (accepted, s') \<Rightarrow> (aPath # accepted, s')))"

text \<open>
  \<^verbatim>\<open>_getCurrentHeadId\<close> (lines 1018-1026): the observable of head ids and the callback its
  \<^verbatim>\<open>.do\<close> runs on each of them.
\<close>

definition getCurrentHeadId ::
  "diff_backend \<Rightarrow> 'c sharedMembers
     \<Rightarrow> string option observable \<times> (string option \<Rightarrow> 'c sharedMembers \<Rightarrow> 'c sharedMembers)" where
  "getCurrentHeadId B s =
     (case currentHeadId s of
        Some headId \<Rightarrow> (obs_of (Some headId), (\<lambda>_ s'. s'))
      | None \<Rightarrow> (getHeadId B, (\<lambda>headId s'. s'\<lparr>currentHeadId := headId\<rparr>)))"

text \<open>
  \<^verbatim>\<open>_getFileDiffs\<close> (lines 976-1016). The lookups in \<^verbatim>\<open>fileContentsAtHead\<close> all happen
  when the function is called; the fetches, diffs and cache writes follow.
\<close>

fun cachedContents ::
  "string list \<Rightarrow> (string, string) LRUCache
     \<Rightarrow> (string \<times> string option) list \<times> (string, string) LRUCache" where
  "cachedContents [] c = ([], c)"
| "cachedContents (filePath # rest) c =
     (case lru_get filePath c of
        (cachedContent, c1) \<Rightarrow>
          (case cachedContents rest c1 of
             (entries, c2) \<Rightarrow> ((filePath, cachedContent) # entries, c2)))"

definition fileContent ::
  "diff_backend \<Rightarrow> string \<Rightarrow> string \<times> string option \<Rightarrow> 'c sharedMembers
     \<Rightarrow> (string \<times> string) observable \<times> 'c sharedMembers" where
  "fileContent B revision entry s =
     (case entry of
        (filePath, None) \<Rightarrow>
          obs_switchMap
            (\<lambda>contents s'.
               (obs_map (Pair filePath) (gitDiffContentAgainstFile B contents filePath),
                s'\<lparr>fileContentsAtHead := lru_set filePath contents (fileContentsAtHead s')\<rparr>))
            (emissions (service_fetchFileContentAtRevision B filePath revision))
            (failed (service_fetchFileContentAtRevision B filePath revision)) s
      | (filePath, Some cachedContent) \<Rightarrow>
          obs_switchMap
            (\<lambda>content s'.
               (obs_map (Pair filePath) (gitDiffContentAgainstFile B content filePath), s'))
            [cachedContent] False s)"

definition getFileDiffs ::
  "diff_backend \<Rightarrow> string list \<Rightarrow> string \<Rightarrow> 'c sharedMembers
     \<Rightarrow> (string \<times> DiffInfo) list observable \<times> 'c sharedMembers" where
  "getFileDiffs B pathsToFetch revision s =
     (case cachedContents pathsToFetch (fileContentsAtHead s) of
        (entries, c) \<Rightarrow>
          (case obs_merge (map (fileContent B revision) entries) (s\<lparr>fileContentsAtHead := c\<rparr>) of
             (merged, s') \<Rightarrow>
               (obs_toArray (obs_map (\<lambda>(filePath, diff). (filePath, parseDiff B diff)) merged),
                s')))"

text \<open>The callback of lines 949-971, on the entries of the map of diffs.\<close>

definition applyFileDiffs ::
  "string list \<Rightarrow> (string \<times> DiffInfo) list \<Rightarrow> 'c sharedMembers \<Rightarrow> 'c sharedMembers" where
  "applyFileDiffs pathsToFetch pathsToDiffInfo s =
     (let s1 = fold (\<lambda>(filePath, diffInfo) s'.
                       s'\<lparr>hgDiffCache := (hgDiffCache s')(filePath \<mapsto> diffInfo)\<rparr>)
                 pathsToDiffInfo s;
          s2 = s1\<lparr>hgDiffCache :=
                    (\<lambda>p. if p \<in> hgDiffCacheFilesToClear s1 then None else hgDiffCache s1 p)\<rparr>;
          s3 = s2\<lparr>hgDiffCacheFilesToClear := {}\<rparr>;
          s4 = s3\<lparr>hgDiffCacheFilesUpdating := hgDiffCacheFilesUpdating s3 - set pathsToFetch\<rparr>
      in emit ''did-change-statuses'' s4)"

text \<open>\<^verbatim>\<open>_updateDiffInfo\<close> (lines 922-974).\<close>

definition updateDiffInfo ::
  "diff_backend \<Rightarrow> string list \<Rightarrow> 'c sharedMembers
     \<Rightarrow> (string \<times> DiffInfo) list observable \<times> 'c sharedMembers" where
  "updateDiffInfo B filePaths s =
     (case pathsToFetch_filter B filePaths s of
        (pathsToFetch, s1) \<Rightarrow>
          if length pathsToFetch = 0 then (obs_of [], s1)
          else
            (case getCurrentHeadId B s1 of
               (heads, tap) \<Rightarrow>
                 obs_switchMap
                   (\<lambda>currentHeadId s'.
                      (case currentHeadId of
                         None \<Rightarrow> (obs_of [], tap currentHeadId s')
                       | Some headId \<Rightarrow>
                           (case getFileDiffs B pathsToFetch headId (tap currentHeadId s') of
                              (diffs, s3) \<Rightarrow> obs_do (applyFileDiffs pathsToFetch) diffs s3)))
                   (emissions heads) (failed heads) s1))"

text \<open>The subscriber of \<^verbatim>\<open>shouldRevisionsUpdate\<close> (lines 389-393).\<close>

definition onRevisionsUpdate :: "'c sharedMembers \<Rightarrow> 'c sharedMembers" where
  "onRevisionsUpdate s =
     s\<lparr>revisionsCache_refreshes := Suc (revisionsCache_refreshes s),
       fileContentsAtHead := lru_reset (fileContentsAtHead s),
       hgDiffCache := Map.empty\<rparr>"

text \<open>
  Backends for evaluating the diff updater: every path under \<^verbatim>\<open>/repo/\<close> is in the
  working directory; a file has the content \<^verbatim>\<open>new\<close> at revision \<^verbatim>\<open>rev2\<close> and \<^verbatim>\<open>old\<close>
  at any other; the diff is the content after the delimiter, and the parsed diff counts
  its characters. The three differ in what \<^verbatim>\<open>getHeadId\<close> delivers.
\<close>

definition backend_with_head :: "string option observable \<Rightarrow> diff_backend" where
  "backend_with_head heads =
     \<lparr>contains = (\<lambda>p. take 6 p = ''/repo/''),
      getHeadId = heads,
      service_fetchFileContentAtRevision =
        (\<lambda>p r. obs_of (if r = ''rev2'' then ''new'' else ''old'')),
      gitDiffContentAgainstFile = (\<lambda>c p. obs_of (''--- '' @ c)),
      parseDiff = (\<lambda>d. \<lparr>added = int (length d), deleted = 0, lineDiffs = []\<rparr>)\<rparr>"

definition backend_rev1 :: diff_backend where
  "backend_rev1 = backend_with_head (obs_of (Some ''rev1''))"

definition backend_rev2 :: diff_backend where
  "backend_rev2 = backend_with_head (obs_of (Some ''rev2''))"

definition backend_no_head :: diff_backend where
  "backend_no_head = backend_with_head (obs_of None)"

definition backend_head_fails :: diff_backend where
  "backend_head_fails = backend_with_head (Observable [] True)"

definition fresh_state :: "unit sharedMembers" where
  "fresh_state = constructor ''/repo/.hg'' ''/repo'' (Some False)"

definition after_diff_at_rev1 :: "unit sharedMembers" where
  "after_diff_at_rev1 = snd (updateDiffInfo backend_rev1 [''/repo/a.txt''] fresh_state)"

definition after_head_moved :: "unit sharedMembers" where
  "after_head_moved = onRevisionsUpdate after_diff_at_rev1"

definition after_diff_at_rev2 :: "unit sharedMembers" where
  "after_diff_at_rev2 = snd (updateDiffInfo backend_rev2 [''/repo/a.txt''] after_head_moved)"

definition after_no_head :: "unit sharedMembers" where
  "after_no_head = snd (updateDiffInfo backend_no_head [''/repo/a.txt''] fresh_state)"

definition after_head_failure :: "unit sharedMembers" where
  "after_head_failure = snd (updateDiffInfo backend_head_fails [''/repo/a.txt''] fresh_state)"

section \<open>Contents and changes at a revision\<close>

text \<open>
  \<^verbatim>\<open>fetchFileContentAtRevision\<close> (lines 1137-1160). The \<^verbatim>\<open>Map\<close> of the revision is
  looked up, or created and stored; the callback of \<^verbatim>\<open>.do\<close> writes into that same
  object, whether or not the cache still holds it.
\<close>

definition fetchFileContentAtRevision ::
  "string \<Rightarrow> string \<Rightarrow> string observable \<Rightarrow> 'c sharedMembers
     \<Rightarrow> string observable \<times> 'c sharedMembers" where
  "fetchFileContentAtRevision filePath revision service s =
     (case lru_get revision (fileContentsAtRevisionIds s) of
        (found, c) \<Rightarrow>
          (case (case found of
                   Some address \<Rightarrow> (address, s\<lparr>fileContentsAtRevisionIds := c\<rparr>)
                 | None \<Rightarrow>
                     (nextMap s,
                      s\<lparr>contentMaps := (contentMaps s)(nextMap s := Map.empty),
                        nextMap := Suc (nextMap s),
                        fileContentsAtRevisionIds := lru_set revision (nextMap s) c\<rparr>)) of
             (fileContentsAtRevision, s1) \<Rightarrow>
               (case contentMaps s1 fileContentsAtRevision filePath of
                  Some committedContents \<Rightarrow> (obs_of committedContents, s1)
                | None \<Rightarrow>
                    obs_do (\<lambda>contents s'.
                              s'\<lparr>contentMaps := (contentMaps s')
                                    (fileContentsAtRevision :=
                                       (contentMaps s' fileContentsAtRevision)
                                         (filePath \<mapsto> contents))\<rparr>)
                      service s1)))"

text \<open>\<^verbatim>\<open>fetchFilesChangedAtRevision\<close> (lines 1162-1179).\<close>

definition fetchFilesChangedAtRevision ::
  "string \<Rightarrow> 'c observable \<Rightarrow> 'c sharedMembers \<Rightarrow> 'c observable \<times> 'c sharedMembers" where
  "fetchFilesChangedAtRevision revision service s =
     (case lru_get revision (revisionIdToFileChanges s) of
        (Some changes, c) \<Rightarrow> (obs_of changes, s\<lparr>revisionIdToFileChanges := c\<rparr>)
      | (None, c) \<Rightarrow>
          obs_do (\<lambda>fetchedChanges s'.
                    s'\<lparr>revisionIdToFileChanges :=
                         lru_set revision fetchedChanges (revisionIdToFileChanges s')\<rparr>)
            service (s\<lparr>revisionIdToFileChanges := c\<rparr>))"

section \<open>Runs of the client\<close>

text \<open>
  What can happen to a client after its construction: a call of one of its operations
  or the firing of one of its subscriptions, each with what the backend delivers for it.
\<close>

datatype 'c client_event =
    Commit string "string list" "LegacyProcessMessage observable"
  | Amend "string option" string "string list" "LegacyProcessMessage observable"
  | CheckoutReference string bool "LegacyProcessMessage observable"
  | Revert "string list" "string option" bool
  | StatusTrigger channel "(string \<rightharpoonup> string) observable"
  | BookmarksTrigger "nat \<Rightarrow> BookmarkInfo list attempt"
  | RevisionsUpdate
  | ConflictStateChanged bool
  | UpdateDiffInfo diff_backend "string list"
  | FetchFileContentAtRevision string string "string observable"
  | FetchFilesChangedAtRevision string "'c observable"
  | Destroy

fun client_step :: "hg_constants \<Rightarrow> 'c client_event \<Rightarrow> 'c sharedMembers \<Rightarrow> 'c sharedMembers" where
  "client_step K (Commit message filePaths service) s = snd (commit message filePaths service s)"
| "client_step K (Amend message amendMode filePaths service) s =
     snd (amend message amendMode filePaths service s)"
| "client_step K (CheckoutReference reference create service) s =
     snd (checkoutReference reference create service s)"
| "client_step K (Revert filePaths toRevision service) s =
     snd (revert filePaths toRevision service s)"
| "client_step K (StatusTrigger ch fetched) s = snd (onStatusTrigger K ch fetched s)"
| "client_step K (BookmarksTrigger fetchBookmarks) s = onBookmarksTrigger fetchBookmarks s"
| "client_step K RevisionsUpdate s = onRevisionsUpdate s"
| "client_step K (ConflictStateChanged inConflict) s = conflictStateChanged inConflict s"
| "client_step K (UpdateDiffInfo B filePaths) s = snd (updateDiffInfo B filePaths s)"
| "client_step K (FetchFileContentAtRevision filePath revision service) s =
     snd (fetchFileContentAtRevision filePath revision service s)"
| "client_step K (FetchFilesChangedAtRevision revision service) s =
     snd (fetchFilesChangedAtRevision revision service s)"
| "client_step K Destroy s = destroy s"

definition within_capacity :: "('k, 'v) LRUCache \<Rightarrow> nat \<Rightarrow> bool" where
  "within_capacity c n = (lru_max c = n \<and> length (lru_entries c) \<le> n)"

text \<open>
  The uses of one bounded cache, oldest first. The age of a key is the number of uses
  since the key was last looked up or set: the least recently used key is the oldest.
\<close>

datatype ('k, 'v) lru_use = LruGet 'k | LruSet 'k 'v | LruReset

fun lru_apply :: "('k, 'v) lru_use \<Rightarrow> ('k, 'v) LRUCache \<Rightarrow> ('k, 'v) LRUCache" where
  "lru_apply (LruGet k) c = snd (lru_get k c)"
| "lru_apply (LruSet k v) c = lru_set k v c"
| "lru_apply LruReset c = lru_reset c"

fun lru_uses :: "('k, 'v) lru_use \<Rightarrow> 'k \<Rightarrow> bool" where
  "lru_uses (LruGet k') k = (k' = k)"
| "lru_uses (LruSet k' v) k = (k' = k)"
| "lru_uses LruReset k = False"

definition lru_age :: "'k \<Rightarrow> ('k, 'v) lru_use list \<Rightarrow> nat" where
  "lru_age k uses = length (takeWhile (\<lambda>u. \<not> lru_uses u k) (rev uses))"

text \<open>The three bounded caches of a client, each within the capacity the constructor gave it.\<close>

definition caches_bounded :: "'c sharedMembers \<Rightarrow> bool" where
  "caches_bounded s =
     (within_capacity (revisionIdToFileChanges s) 100
      \<and> within_capacity (fileContentsAtRevisionIds s) 20
      \<and> within_capacity (fileContentsAtHead s) 30)"


text \<open>
  A cache of capacity 2 in which \<^verbatim>\<open>a\<close> was set before \<^verbatim>\<open>b\<close> but looked up after it.
\<close>

definition sample_uses :: "(string, nat) lru_use list" where
  "sample_uses = [LruSet ''a'' 1, LruSet ''b'' 2, LruGet ''a'']"

definition sample_cache :: "(string, nat) LRUCache" where
  "sample_cache = fold lru_apply sample_uses (LRU 2)"

section \<open>Properties\<close>

subsection \<open>Status lookups on a cache miss\<close>

text \<open>
  Claim C8. For every path that is not present in the status cache, the synchronous
  path-status lookup returns the CLEAN status code; so it does for a null or an empty
  path argument, whatever the cache holds.
\<close>

theorem getPathStatus_clean_on_miss:
  "(hgStatusCache s p = None \<longrightarrow>
      getPathStatus K s p = CLEAN K \<and> getCachedPathStatus K s (Some p) = CLEAN K)
   \<and> getCachedPathStatus K s None = CLEAN K
   \<and> getCachedPathStatus K s (Some []) = CLEAN K
   \<and> getPathStatus K s [] = CLEAN K"
  by (simp add: getPathStatus_def getCachedPathStatus_def falsy_path_def cached_status_def)

theorem getPathStatus_clean_on_miss_witness:
  "hgStatusCache (constructor ''/repo/.hg'' ''/repo'' None :: unit sharedMembers) ''/repo/a.txt'' = None
   \<and> getPathStatus sample_constants
       (constructor ''/repo/.hg'' ''/repo'' None :: unit sharedMembers) ''/repo/a.txt'' = 2"
  using getPathStatus_clean_on_miss
    [of "constructor ''/repo/.hg'' ''/repo'' None :: unit sharedMembers" "''/repo/a.txt''"
       sample_constants]
  by (simp add: constructor_def sample_constants_def)

text \<open>
  Claim C10. For a non-empty path with no cached status, \<open>isPathIgnored\<close> is true
  exactly when the path is the repository path or starts with the repository path
  followed by \<open>/\<close>, and \<open>isPathModified\<close>, \<open>isPathNew\<close>, \<open>isPathAdded\<close> and
  \<open>isPathUntracked\<close> are false. For a null or an empty path all five are false
  (the first part leaves the empty path to the second).
\<close>

theorem isPath_predicates_on_miss:
  "(p \<noteq> [] \<and> hgStatusCache s p = None \<longrightarrow>
      (isPathIgnored K s (Some p) \<longleftrightarrow> (p = path s \<or> (\<exists>rest. p = path s @ ''/'' @ rest)))
      \<and> \<not> isPathModified K s (Some p) \<and> \<not> isPathNew K s (Some p)
      \<and> \<not> isPathAdded K s (Some p) \<and> \<not> isPathUntracked K s (Some p))
   \<and> (fp = None \<or> fp = Some [] \<longrightarrow>
      \<not> isPathIgnored K s fp \<and> \<not> isPathModified K s fp \<and> \<not> isPathNew K s fp
      \<and> \<not> isPathAdded K s fp \<and> \<not> isPathUntracked K s fp)"
proof -
  have pre: "indexOf_is_0 p t \<longleftrightarrow> (\<exists>rest. p = t @ rest)" for p t :: string
    unfolding indexOf_is_0_def
    by (metis append_eq_conv_conj append_take_drop_id)
  have miss: "falsy_status (cached_status s (Some p))" if "hgStatusCache s p = None"
    using that by (simp add: falsy_status_def cached_status_def)
  have part1: "(isPathIgnored K s (Some p) \<longleftrightarrow> (p = path s \<or> (\<exists>rest. p = path s @ ''/'' @ rest)))
      \<and> \<not> isPathModified K s (Some p) \<and> \<not> isPathNew K s (Some p)
      \<and> \<not> isPathAdded K s (Some p) \<and> \<not> isPathUntracked K s (Some p)"
    if "p \<noteq> []" "hgStatusCache s p = None"
    using that miss pre [of p "path s @ ''/''"]
    by (simp add: isPathIgnored_def isPathModified_def isPathNew_def isPathAdded_def
        isPathUntracked_def falsy_path_def isPathWithinHgRepo_def getPath_def)
  have part2: "\<not> isPathIgnored K s fp \<and> \<not> isPathModified K s fp \<and> \<not> isPathNew K s fp
      \<and> \<not> isPathAdded K s fp \<and> \<not> isPathUntracked K s fp"
    if "fp = None \<or> fp = Some []"
    using that
    by (auto simp: isPathIgnored_def isPathModified_def isPathNew_def isPathAdded_def
        isPathUntracked_def falsy_path_def)
  show ?thesis using part1 part2 by blast
qed

theorem isPath_predicates_on_miss_witness:
  "isPathIgnored sample_constants sample_state (Some ''/repo/.hg/store'')
   \<and> isPathIgnored sample_constants sample_state (Some ''/repo/.hg'')
   \<and> \<not> isPathIgnored sample_constants sample_state (Some ''/repo/.hgignore'')
   \<and> \<not> isPathModified sample_constants sample_state (Some ''/repo/.hg/store'')
   \<and> \<not> isPathNew sample_constants sample_state (Some ''/repo/.hg/store'')
   \<and> \<not> isPathIgnored sample_constants sample_state None
   \<and> \<not> isPathIgnored sample_constants sample_state (Some [])"
proof -
  have c: "hgStatusCache sample_state ''/repo/.hg/store'' = None"
    "hgStatusCache sample_state ''/repo/.hg'' = None"
    "hgStatusCache sample_state ''/repo/.hgignore'' = None"
    "path sample_state = ''/repo/.hg''"
    by (simp_all add: sample_state_def constructor_def)
  show ?thesis
    using isPath_predicates_on_miss
        [of "''/repo/.hg/store''" sample_state sample_constants None]
      isPath_predicates_on_miss [of "''/repo/.hg''" sample_state sample_constants "Some []"]
      isPath_predicates_on_miss [of "''/repo/.hgignore''" sample_state sample_constants None]
      c
    by simp
qed

subsection \<open>Cache invalidation\<close>

lemma fold_delete_status:
  "hgStatusCache (fold (\<lambda>filePath s'.
       s'\<lparr>hgDiffCache := (hgDiffCache s')(filePath := None),
          hgStatusCache := (hgStatusCache s')(filePath := None)\<rparr>) ps s)
   = (\<lambda>p. if p \<in> set ps then None else hgStatusCache s p)"
  by (induction ps arbitrary: s) (auto simp: fun_eq_iff)

lemma fold_delete_diff:
  "hgDiffCache (fold (\<lambda>filePath s'.
       s'\<lparr>hgDiffCache := (hgDiffCache s')(filePath := None),
          hgStatusCache := (hgStatusCache s')(filePath := None)\<rparr>) ps s)
   = (\<lambda>p. if p \<in> set ps then None else hgDiffCache s p)"
  by (induction ps arbitrary: s) (auto simp: fun_eq_iff)

lemma fold_delete_head:
  "fileContentsAtHead (fold (\<lambda>filePath s'.
       s'\<lparr>hgDiffCache := (hgDiffCache s')(filePath := None),
          hgStatusCache := (hgStatusCache s')(filePath := None)\<rparr>) ps s)
   = fileContentsAtHead s"
  by (induction ps arbitrary: s) auto

text \<open>
  Claim C6. Clearing the client cache with a non-empty list of paths removes exactly
  those paths from the status cache and from the diff cache and leaves every other entry
  of the two as it was; clearing with the empty list empties the status cache, the diff
  cache and the head-content cache.
\<close>

theorem clearClientCache_effect:
  "(filePaths \<noteq> [] \<longrightarrow>
      (\<forall>p. hgStatusCache (clearClientCache filePaths s) p
             = (if p \<in> set filePaths then None else hgStatusCache s p))
      \<and> (\<forall>p. hgDiffCache (clearClientCache filePaths s) p
             = (if p \<in> set filePaths then None else hgDiffCache s p)))
   \<and> hgStatusCache (clearClientCache [] s) = Map.empty
   \<and> hgDiffCache (clearClientCache [] s) = Map.empty
   \<and> lru_entries (fileContentsAtHead (clearClientCache [] s)) = []"
  by (simp add: clearClientCache_def emit_def fold_delete_status fold_delete_diff lru_reset_def)

theorem clearClientCache_effect_witness:
  "[''/repo/a.txt''] \<noteq> []
   \<and> hgStatusCache sample_state ''/repo/a.txt'' = Some 4
   \<and> hgStatusCache (clearClientCache [''/repo/a.txt''] sample_state) ''/repo/a.txt'' = None
   \<and> hgDiffCache (clearClientCache [''/repo/a.txt''] sample_state) ''/repo/a.txt'' = None
   \<and> hgStatusCache (clearClientCache [''/repo/b.txt''] sample_state) ''/repo/a.txt'' = Some 4"
  using clearClientCache_effect [of "[''/repo/a.txt'']" sample_state]
    clearClientCache_effect [of "[''/repo/b.txt'']" sample_state]
  by (simp add: sample_state_def constructor_def)

lemma fold_clearOnSuccessExit_none:
  "Exit (Some 0) \<notin> set ms \<Longrightarrow>
   fold (\<lambda>processMessage. clearOnSuccessExit processMessage filePaths) ms s = s"
  by (induction ms arbitrary: s)
     (auto simp: clearOnSuccessExit_def split: LegacyProcessMessage.splits)

lemma do_clearOnSuccessExit:
  "Exit (Some 0) \<notin> set before \<Longrightarrow>
   snd (obs_do (\<lambda>processMessage. clearOnSuccessExit processMessage filePaths)
          (Observable (before @ [Exit (Some 0)]) fl) s)
   = clearClientCache filePaths s"
  by (simp add: obs_do_def fold_clearOnSuccessExit_none clearOnSuccessExit_def)

text \<open>
  Claim C1, as the code has it. When the messages of \<^verbatim>\<open>commit\<close> or \<^verbatim>\<open>amend\<close> end with
  the exit message of a successful command (exit code 0), the client cache is cleared
  for the paths of the operation. \<^verbatim>\<open>revert\<close>, \<^verbatim>\<open>checkoutHead\<close>,
  \<^verbatim>\<open>checkoutReference\<close>, \<^verbatim>\<open>rebase\<close>, \<^verbatim>\<open>pull\<close> and the bookmark mutations hand the
  backend's result to the caller and leave the shared members as they are.
\<close>

theorem mutating_operations_invalidation:
  "(Exit (Some 0) \<notin> set before \<longrightarrow>
      snd (commit message filePaths (Observable (before @ [Exit (Some 0)]) fl) s)
        = clearClientCache filePaths s
      \<and> snd (amend message' amendMode filePaths (Observable (before @ [Exit (Some 0)]) fl) s)
        = clearClientCache filePaths s)
   \<and> snd (revert filePaths toRevision fulfilled s) = s
   \<and> snd (checkoutHead filePaths fulfilled s) = s
   \<and> snd (checkoutReference reference create service s) = s
   \<and> snd (rebase destination source service s) = s
   \<and> snd (pull options service s) = s
   \<and> snd (createBookmark name revision fulfilled s) = s
   \<and> snd (deleteBookmark name fulfilled s) = s
   \<and> snd (renameBookmark name nextName fulfilled s) = s"
  by (simp add: commit_def amend_def do_clearOnSuccessExit revert_def checkoutHead_def
      checkoutReference_def rebase_def pull_def createBookmark_def deleteBookmark_def
      renameBookmark_def)

theorem mutating_operations_invalidation_witness:
  "Exit (Some 0) \<notin> set [Stdout ''committed'']
   \<and> hgStatusCache (snd (commit ''fix'' []
         (Observable ([Stdout ''committed''] @ [Exit (Some 0)]) False) sample_state)) ''/repo/a.txt''
       = None
   \<and> emitted (snd (commit ''fix'' []
         (Observable ([Stdout ''committed''] @ [Exit (Some 0)]) False) sample_state))
       = [''did-change-statuses'']"
  using mutating_operations_invalidation
    [of "[Stdout ''committed'']" "''fix''" "[]" False sample_state]
  by (simp add: clearClientCache_def emit_def sample_state_def constructor_def)

theorem checkoutReference_no_invalidation_counterexample:
  "hgStatusCache (snd (checkoutReference ''main'' False (Observable [Exit (Some 0)] False)
       sample_state)) ''/repo/a.txt'' = Some 4
   \<and> emitted (snd (checkoutReference ''main'' False (Observable [Exit (Some 0)] False)
       sample_state)) = []
   \<and> hgStatusCache (clearClientCache [] sample_state) ''/repo/a.txt'' = None
   \<and> emitted (clearClientCache [] sample_state) = [''did-change-statuses'']"
  by (simp add: checkoutReference_def clearClientCache_def emit_def sample_state_def
      constructor_def)

subsection \<open>Destroy\<close>

text \<open>
  Claim C7. \<open>destroy\<close> is idempotent: a second call changes nothing, so it emits no
  second \<^verbatim>\<open>did-destroy\<close>; the function has no failing branch. After the first call of
  a client that was not destroyed, the destroyed flag is set and stays set, the owned
  subscriptions are disposed, the two revision-keyed caches are empty and exactly one
  \<^verbatim>\<open>did-destroy\<close> has been emitted.
\<close>

theorem destroy_idempotent:
  "destroy (destroy s) = destroy s
   \<and> isDestroyed (destroy s)
   \<and> isDestroyed (destroy (destroy s))
   \<and> (\<not> isDestroyed s \<longrightarrow>
        emitted (destroy s) = emitted s @ [''did-destroy'']
        \<and> emitted (destroy (destroy s)) = emitted s @ [''did-destroy'']
        \<and> subscriptions_disposed (destroy s)
        \<and> repoSubscriptions (destroy s) \<noteq> Some False
        \<and> lru_entries (revisionIdToFileChanges (destroy s)) = []
        \<and> lru_entries (fileContentsAtRevisionIds (destroy s)) = [])"
  by (cases "repoSubscriptions s")
     (simp_all add: destroy_def Let_def emit_def lru_reset_def)

theorem destroy_idempotent_witness:
  "\<not> isDestroyed sample_state
   \<and> emitted (destroy (destroy sample_state)) = [''did-destroy'']
   \<and> subscriptions_disposed (destroy sample_state)
   \<and> repoSubscriptions (destroy sample_state) = Some True"
proof -
  have a: "\<not> isDestroyed sample_state" "emitted sample_state = []"
    "repoSubscriptions sample_state = Some False"
    by (simp_all add: sample_state_def constructor_def)
  have b: "repoSubscriptions (destroy sample_state) = Some True"
    using a by (simp add: destroy_def Let_def emit_def)
  show ?thesis using destroy_idempotent [of sample_state] a b by simp
qed

subsection \<open>Bookmark refresh\<close>

lemma bookmarksUpdates_all_fail:
  assumes "\<forall>i<3. \<forall>bs. fetchBookmarks i \<noteq> Resolved bs"
  shows "bookmarksUpdates fetchBookmarks = Observable [] False"
proof -
  have f: "fromPromise_timeout (fetchBookmarks i) = Observable [] True" if "i < 3" for i
    using assms that by (cases "fetchBookmarks i") (auto simp: fromPromise_timeout_def)
  have "obs_retry (Suc (Suc 0)) (\<lambda>i. fromPromise_timeout (fetchBookmarks i)) 0
          = Observable [] True"
    using f [of 0] f [of "Suc 0"] f [of "Suc (Suc 0)"] by simp
  then show ?thesis
    by (simp add: bookmarksUpdates_def obs_catch_def obs_empty_def numeral_2_eq_2)
qed

lemma bookmarksUpdates_success:
  assumes "i < 3" "fetchBookmarks i = Resolved bs"
    "\<forall>j<i. \<forall>bs'. fetchBookmarks j \<noteq> Resolved bs'"
  shows "bookmarksUpdates fetchBookmarks = Observable [bs] False"
proof -
  have f: "fromPromise_timeout (fetchBookmarks j) = Observable [] True" if "j < i" for j
    using assms(3) that by (cases "fetchBookmarks j") (auto simp: fromPromise_timeout_def)
  have g: "fromPromise_timeout (fetchBookmarks i) = Observable [bs] False"
    using assms(2) by (simp add: fromPromise_timeout_def obs_of_def)
  have "i = 0 \<or> i = 1 \<or> i = 2" using assms(1) by arith
  then have "obs_retry (Suc (Suc 0)) (\<lambda>i. fromPromise_timeout (fetchBookmarks i)) 0
          = Observable [bs] False"
  proof (elim disjE)
    assume "i = 0" then show ?thesis using g by simp
  next
    assume "i = 1" then show ?thesis using g f [of 0] by simp
  next
    assume i: "i = 2"
    then have "fromPromise_timeout (fetchBookmarks (Suc (Suc 0))) = Observable [bs] False"
      using g by (simp add: numeral_2_eq_2)
    then show ?thesis using i f [of 0] f [of "Suc 0"] by simp
  qed
  then show ?thesis
    by (simp add: bookmarksUpdates_def obs_catch_def numeral_2_eq_2)
qed

text \<open>
  Claim C2, as the code has it. When the bookmark fetch fails on the first attempt and
  on both retries (rejected or timed out), nothing is sent to the bookmarks subject:
  the bookmark list and the loading flag both keep their previous values. The flag is
  set to false together with a new list, when one of the three attempts succeeds.
\<close>

theorem bookmarks_refresh_outcome:
  "((\<forall>i<3. \<forall>bs. fetchBookmarks i \<noteq> Resolved bs) \<longrightarrow>
      onBookmarksTrigger fetchBookmarks s = s)
   \<and> (i < 3 \<and> fetchBookmarks i = Resolved bs
        \<and> (\<forall>j<i. \<forall>bs'. fetchBookmarks j \<noteq> Resolved bs') \<longrightarrow>
      bookmarks (onBookmarksTrigger fetchBookmarks s)
        = \<lparr>isLoading = False, bookmarks_list = bs\<rparr>)"
proof (intro conjI impI)
  assume "\<forall>i<3. \<forall>bs. fetchBookmarks i \<noteq> Resolved bs"
  then show "onBookmarksTrigger fetchBookmarks s = s"
    by (simp add: onBookmarksTrigger_def bookmarksUpdates_all_fail)
next
  assume "i < 3 \<and> fetchBookmarks i = Resolved bs
        \<and> (\<forall>j<i. \<forall>bs'. fetchBookmarks j \<noteq> Resolved bs')"
  then have "bookmarksUpdates fetchBookmarks = Observable [bs] False"
    using bookmarksUpdates_success by blast
  then show "bookmarks (onBookmarksTrigger fetchBookmarks s)
        = \<lparr>isLoading = False, bookmarks_list = bs\<rparr>"
    by (simp add: onBookmarksTrigger_def bookmarks_next_def)
qed

theorem bookmarks_refresh_outcome_witness:
  "rejecting_fetchBookmarks 0 = Rejected
   \<and> rejecting_fetchBookmarks 1 = Rejected
   \<and> rejecting_fetchBookmarks 2 = Rejected
   \<and> onBookmarksTrigger rejecting_fetchBookmarks sample_state = sample_state
   \<and> third_time_lucky 0 = Rejected
   \<and> third_time_lucky 1 = Rejected
   \<and> third_time_lucky 2 = Resolved []
   \<and> bookmarks (onBookmarksTrigger third_time_lucky sample_state)
       = \<lparr>isLoading = False, bookmarks_list = []\<rparr>"
proof -
  have a: "\<forall>i<3. \<forall>bs. rejecting_fetchBookmarks i \<noteq> Resolved bs"
    by (simp add: rejecting_fetchBookmarks_def)
  have b: "(2::nat) < 3 \<and> third_time_lucky 2 = Resolved []
        \<and> (\<forall>j<2. \<forall>bs'. third_time_lucky j \<noteq> Resolved bs')"
    by (simp add: third_time_lucky_def)
  have c: "third_time_lucky 0 = Rejected" "third_time_lucky 1 = Rejected"
    "rejecting_fetchBookmarks 0 = Rejected" "rejecting_fetchBookmarks 1 = Rejected"
    "rejecting_fetchBookmarks 2 = Rejected"
    by (simp_all add: third_time_lucky_def rejecting_fetchBookmarks_def)
  show ?thesis
    using bookmarks_refresh_outcome [of rejecting_fetchBookmarks sample_state 0 "[]"] a
      bookmarks_refresh_outcome [of third_time_lucky sample_state 2 "[]"] b c
    by simp
qed

theorem bookmarks_loading_flag_counterexample:
  "isLoading (bookmarks (constructor ''/repo/.hg'' ''/repo'' None :: unit sharedMembers))
   \<and> rejecting_fetchBookmarks 0 = Rejected
   \<and> rejecting_fetchBookmarks 1 = Rejected
   \<and> rejecting_fetchBookmarks 2 = Rejected
   \<and> isLoading (bookmarks (onBookmarksTrigger rejecting_fetchBookmarks
        (constructor ''/repo/.hg'' ''/repo'' None :: unit sharedMembers)))"
  by (simp add: onBookmarksTrigger_def bookmarksUpdates_def obs_catch_def obs_empty_def
      numeral_2_eq_2 fromPromise_timeout_def rejecting_fetchBookmarks_def constructor_def)

subsection \<open>Status pipelines\<close>

lemma catch_never_fails: "\<not> failed (obs_catch src obs_empty)"
  by (simp add: obs_catch_def obs_empty_def)

lemma subscriber_isFetching:
  "isFetchingPathStatuses (fold (statusChangesSubscriber ch) ms s) = isFetchingPathStatuses s"
  by (induction ms arbitrary: s)
     (auto simp: statusChangesSubscriber_def emit_def split: channel.splits)

lemma onStatusTrigger_completes: "fst (onStatusTrigger K ch fetched s) = False"
  by (simp add: onStatusTrigger_def Let_def obs_map_def catch_never_fails)

lemma onStatusTrigger_isFetching:
  "isFetchingPathStatuses (snd (onStatusTrigger K ch fetched s))
     = isFetchingPathStatuses s @ [True, False]"
  by (simp add: onStatusTrigger_def Let_def subscriber_isFetching)

lemma statusChanges_alive:
  "fst (statusChanges K ch fetches s) = False
   \<and> isFetchingPathStatuses (snd (statusChanges K ch fetches s))
       = isFetchingPathStatuses s @ concat (map (\<lambda>_. [True, False]) fetches)"
proof (induction fetches arbitrary: s)
  case Nil
  show ?case by simp
next
  case (Cons fetched later)
  obtain s' where s': "onStatusTrigger K ch fetched s = (False, s')"
    using onStatusTrigger_completes [of K ch fetched s]
    by (cases "onStatusTrigger K ch fetched s") auto
  have "isFetchingPathStatuses s' = isFetchingPathStatuses s @ [True, False]"
    using onStatusTrigger_isFetching [of K ch fetched s] s' by simp
  then show ?case using Cons.IH [of s'] s' by simp
qed

lemma isCalculatingChanges_merged_append:
  "isCalculatingChanges_merged K (fetches @ later)
     = isCalculatingChanges_merged K fetches @ isCalculatingChanges_merged K later"
  by (induction fetches) (simp_all add: obs_map_def catch_never_fails)

lemma isCalculatingChanges_after_failure:
  "last (isCalculatingChanges K (fetches @ [Observable [] True])) = True"
  by (simp add: isCalculatingChanges_def obs_distinctUntilChanged_def
      isCalculatingChanges_merged_append obs_map_def obs_catch_def obs_empty_def)

lemma isCalculatingChanges_eval:
  "isCalculatingChanges sample_constants [failing_fetch] = [True]"
  "isCalculatingChanges sample_constants [modified_fetch] = [True, False]"
  "isCalculatingChanges sample_constants [modified_fetch, failing_fetch] = [True, False, True]"
  by (simp_all add: isCalculatingChanges_def obs_distinctUntilChanged_def obs_map_def
      obs_catch_def obs_empty_def failing_fetch_def modified_fetch_def)

lemma isFetchingPathStatuses_eval:
  "isFetchingPathStatuses
     (snd (statusChanges sample_constants Uncommitted [modified_fetch, failing_fetch]
        sample_state))
   = [True, False, True, False]"
  using statusChanges_alive
    [of sample_constants Uncommitted "[modified_fetch, failing_fetch]" sample_state]
  by (simp add: sample_state_def constructor_def)

text \<open>
  Claim C5, evaluated on the code. In each of the three status pipelines a failing fetch
  is caught: the inner observable never ends with an error, so the stream handles every
  later trigger; a fetch that fails without a snapshot changes nothing but the in-flight
  subject; and whatever the fetch delivers, the subject \<^verbatim>\<open>isFetchingPathStatuses\<close>
  receives \<open>False\<close> after \<open>True\<close>. But the in-flight stream that the pipeline itself
  returns, \<^verbatim>\<open>isCalculatingChanges\<close>, gets \<open>False\<close> only from a delivered snapshot:
  after a fetch that fails without one its latest value is \<open>True\<close>, and it stays so
  until a later fetch succeeds.
\<close>

theorem status_pipeline_in_flight_indicators:
  "fst (onStatusTrigger K ch fetched s) = False
   \<and> isFetchingPathStatuses (snd (onStatusTrigger K ch fetched s))
       = isFetchingPathStatuses s @ [True, False]
   \<and> snd (onStatusTrigger K ch (Observable [] True) s)
       = s\<lparr>isFetchingPathStatuses := isFetchingPathStatuses s @ [True, False]\<rparr>
   \<and> fst (statusChanges K ch fetches s) = False
   \<and> isFetchingPathStatuses (snd (statusChanges K ch fetches s))
       = isFetchingPathStatuses s @ concat (map (\<lambda>_. [True, False]) fetches)
   \<and> last (isCalculatingChanges K (fetches @ [Observable [] True])) = True
   \<and> isCalculatingChanges sample_constants [failing_fetch] = [True]
   \<and> isCalculatingChanges sample_constants [modified_fetch] = [True, False]
   \<and> isCalculatingChanges sample_constants [modified_fetch, failing_fetch]
       = [True, False, True]
   \<and> isFetchingPathStatuses
        (snd (statusChanges sample_constants Uncommitted [modified_fetch, failing_fetch]
           sample_state))
       = [True, False, True, False]"
proof -
  have "snd (onStatusTrigger K ch (Observable [] True) s)
       = s\<lparr>isFetchingPathStatuses := isFetchingPathStatuses s @ [True, False]\<rparr>"
    by (simp add: onStatusTrigger_def Let_def obs_catch_def obs_empty_def obs_map_def)
  then show ?thesis
    using onStatusTrigger_completes [of K ch fetched s]
      onStatusTrigger_isFetching [of K ch fetched s] statusChanges_alive [of K ch fetches s]
      isCalculatingChanges_after_failure [of K fetches]
      isCalculatingChanges_eval isFetchingPathStatuses_eval
    by blast
qed

subsection \<open>Diff cache\<close>

lemmas diff_eval =
  updateDiffInfo_def getCurrentHeadId_def getFileDiffs_def fileContent_def
  applyFileDiffs_def obs_do_def obs_of_def obs_map_def obs_toArray_def lru_get_def lru_set_def
  lru_peek_def lru_reset_def LRU_def emit_def isPathRelevantToRepository_def
  backend_with_head_def backend_rev1_def backend_rev2_def backend_no_head_def
  backend_head_fails_def fresh_state_def constructor_def onRevisionsUpdate_def Let_def

lemma after_diff_at_rev1_eval:
  "currentHeadId after_diff_at_rev1 = Some ''rev1''"
  "lru_entries (fileContentsAtHead after_diff_at_rev1) = [(''/repo/a.txt'', ''old'')]"
  "hgDiffCacheFilesUpdating after_diff_at_rev1 = {}"
  "hgDiffCache after_diff_at_rev1 ''/repo/a.txt''
     = Some \<lparr>added = 7, deleted = 0, lineDiffs = []\<rparr>"
  unfolding after_diff_at_rev1_def by (simp_all add: diff_eval)

lemma after_head_moved_eval:
  "currentHeadId after_head_moved = Some ''rev1''"
  "lru_entries (fileContentsAtHead after_head_moved) = []"
  "hgDiffCache after_head_moved ''/repo/a.txt'' = None"
  unfolding after_head_moved_def
  by (simp_all add: onRevisionsUpdate_def lru_reset_def after_diff_at_rev1_eval)

lemma after_diff_at_rev2_eval:
  "currentHeadId after_diff_at_rev2 = Some ''rev1''"
  "lru_entries (fileContentsAtHead after_diff_at_rev2) = [(''/repo/a.txt'', ''old'')]"
  unfolding after_diff_at_rev2_def after_head_moved_def after_diff_at_rev1_def
  by (simp_all add: diff_eval)

text \<open>
  Claim C3, evaluated on the code. The subscriber of the revision-changing trigger clears
  the head-content cache and the diff cache, but it leaves the cached head id as it is.
  After a diff at head \<^verbatim>\<open>rev1\<close> and a trigger, with the backend's head now \<^verbatim>\<open>rev2\<close>,
  the next diff update still uses \<^verbatim>\<open>rev1\<close> and stores the content at \<^verbatim>\<open>rev1\<close>
  (\<^verbatim>\<open>old\<close>) as the content at head.
\<close>

theorem head_id_survives_revision_trigger:
  "currentHeadId (onRevisionsUpdate s) = currentHeadId s
   \<and> lru_entries (fileContentsAtHead (onRevisionsUpdate s)) = []
   \<and> hgDiffCache (onRevisionsUpdate s) p = None
   \<and> currentHeadId after_diff_at_rev1 = Some ''rev1''
   \<and> currentHeadId after_head_moved = Some ''rev1''
   \<and> getHeadId backend_rev2 = obs_of (Some ''rev2'')
   \<and> service_fetchFileContentAtRevision backend_rev2 ''/repo/a.txt'' ''rev2'' = obs_of ''new''
   \<and> currentHeadId after_diff_at_rev2 = Some ''rev1''
   \<and> lru_entries (fileContentsAtHead after_diff_at_rev2) = [(''/repo/a.txt'', ''old'')]"
  by (simp add: after_diff_at_rev1_eval after_head_moved_eval after_diff_at_rev2_eval)
     (simp add: onRevisionsUpdate_def lru_reset_def backend_rev2_def backend_with_head_def)

lemma pathsToFetch_filter_guard:
  "set (fst (pathsToFetch_filter B filePaths s)) \<inter> hgDiffCacheFilesUpdating s = {}
   \<and> distinct (fst (pathsToFetch_filter B filePaths s))
   \<and> hgDiffCacheFilesUpdating (snd (pathsToFetch_filter B filePaths s))
       = hgDiffCacheFilesUpdating s \<union> set (fst (pathsToFetch_filter B filePaths s))"
proof (induction filePaths arbitrary: s)
  case Nil
  show ?case by simp
next
  case (Cons aPath rest)
  let ?s' = "s\<lparr>hgDiffCacheFilesUpdating := insert aPath (hgDiffCacheFilesUpdating s)\<rparr>"
  have rel: "isPathRelevantToRepository B ?s' = isPathRelevantToRepository B s"
    by (simp add: isPathRelevantToRepository_def fun_eq_iff)
  show ?case
  proof (cases "\<not> isPathRelevantToRepository B s aPath \<or> aPath \<in> hgDiffCacheFilesUpdating s")
    case True
    then show ?thesis using Cons.IH [of s] by auto
  next
    case False
    obtain accepted s'' where r: "pathsToFetch_filter B rest ?s' = (accepted, s'')"
      by (cases "pathsToFetch_filter B rest ?s'")
    have "set accepted \<inter> insert aPath (hgDiffCacheFilesUpdating s) = {}"
      "distinct accepted"
      "hgDiffCacheFilesUpdating s'' = insert aPath (hgDiffCacheFilesUpdating s) \<union> set accepted"
      using Cons.IH [of ?s'] r by simp_all
    then show ?thesis using False r by auto
  qed
qed

lemma after_no_head_eval:
  "fst (updateDiffInfo backend_no_head [''/repo/a.txt''] fresh_state) = obs_of []"
  "''/repo/a.txt'' \<in> hgDiffCacheFilesUpdating after_no_head"
  "fst (updateDiffInfo backend_rev1 [''/repo/a.txt''] after_no_head) = obs_of []"
  "hgDiffCache (snd (updateDiffInfo backend_rev1 [''/repo/a.txt''] after_no_head))
     ''/repo/a.txt'' = None"
  unfolding after_no_head_def by (simp_all add: diff_eval)

lemma after_head_failure_eval:
  "fst (updateDiffInfo backend_head_fails [''/repo/a.txt''] fresh_state) = Observable [] True"
  "''/repo/a.txt'' \<in> hgDiffCacheFilesUpdating after_head_failure"
  unfolding after_head_failure_def by (simp_all add: diff_eval)

text \<open>
  Claim C4, evaluated on the code. A path in the guard set is never accepted into a
  batch, and no path is accepted twice. A batch whose diffs are delivered releases its
  paths. But a batch that ends because no head revision is resolvable (an empty result),
  or because \<^verbatim>\<open>getHeadId\<close> fails, leaves its paths in the guard set: a later request for
  \<^verbatim>\<open>/repo/a.txt\<close>, with the head now resolvable, is skipped and caches no diff.
\<close>

theorem diff_guard_release:
  "set (fst (pathsToFetch_filter B filePaths s)) \<inter> hgDiffCacheFilesUpdating s = {}
   \<and> distinct (fst (pathsToFetch_filter B filePaths s))
   \<and> hgDiffCacheFilesUpdating after_diff_at_rev1 = {}
   \<and> hgDiffCache after_diff_at_rev1 ''/repo/a.txt''
       = Some \<lparr>added = 7, deleted = 0, lineDiffs = []\<rparr>
   \<and> fst (updateDiffInfo backend_no_head [''/repo/a.txt''] fresh_state) = obs_of []
   \<and> ''/repo/a.txt'' \<in> hgDiffCacheFilesUpdating after_no_head
   \<and> fst (updateDiffInfo backend_head_fails [''/repo/a.txt''] fresh_state) = Observable [] True
   \<and> ''/repo/a.txt'' \<in> hgDiffCacheFilesUpdating after_head_failure
   \<and> fst (updateDiffInfo backend_rev1 [''/repo/a.txt''] after_no_head) = obs_of []
   \<and> hgDiffCache (snd (updateDiffInfo backend_rev1 [''/repo/a.txt''] after_no_head))
       ''/repo/a.txt'' = None"
  using pathsToFetch_filter_guard [of B filePaths s]
  by (simp add: after_diff_at_rev1_eval after_no_head_eval after_head_failure_eval)

subsection \<open>Bounded caches\<close>

lemma lru_age_snoc:
  "lru_age k (uses @ [u]) = (if lru_uses u k then 0 else Suc (lru_age k uses))"
  by (simp add: lru_age_def)

lemma map_of_filter_shorter:
  "map_of es k = Some v \<Longrightarrow> length (filter (\<lambda>e. fst e \<noteq> k) es) < length es"
  by (induction es) (auto simp: less_Suc_eq_le split: if_splits)

lemma lru_apply_max: "lru_max (lru_apply u c) = lru_max c"
  by (cases u) (auto simp: lru_get_def lru_set_def lru_reset_def split: option.splits)

lemma lru_set_within: "within_capacity c n \<Longrightarrow> within_capacity (lru_set k v c) n"
  by (simp add: within_capacity_def lru_set_def)

lemma lru_get_within: "within_capacity c n \<Longrightarrow> within_capacity (snd (lru_get k c)) n"
  using map_of_filter_shorter [of "lru_entries c" k]
  by (auto simp: within_capacity_def lru_get_def lru_peek_def split: option.splits)

lemma lru_reset_within: "within_capacity c n \<Longrightarrow> within_capacity (lru_reset c) n"
  by (simp add: within_capacity_def lru_reset_def)

lemma LRU_within: "within_capacity (LRU n) n"
  by (simp add: within_capacity_def LRU_def)

lemma lru_apply_within: "within_capacity c n \<Longrightarrow> within_capacity (lru_apply u c) n"
  by (cases u) (simp_all add: lru_set_within lru_get_within lru_reset_within)

lemma lru_run_within: "within_capacity (fold lru_apply uses (LRU n)) n"
proof (induction uses rule: rev_induct)
  case Nil
  show ?case by (simp add: LRU_within)
next
  case (snoc u uses)
  then show ?case by (simp add: lru_apply_within)
qed

lemma sorted_after_use:
  fixes es :: "('k \<times> 'v) list"
  assumes "sorted_wrt (\<lambda>a b. lru_age (fst a) uses < lru_age (fst b) uses) es"
    and "lru_uses u k"
    and "\<And>k'. k' \<noteq> k \<Longrightarrow> \<not> lru_uses u k'"
  shows "sorted_wrt (\<lambda>a b. lru_age (fst a) (uses @ [u]) < lru_age (fst b) (uses @ [u]))
           ((k, v) # filter (\<lambda>e. fst e \<noteq> k) es)"
proof -
  have "sorted_wrt (\<lambda>a b. lru_age (fst a) uses < lru_age (fst b) uses)
          (filter (\<lambda>e. fst e \<noteq> k) es)"
    using assms(1) by (rule sorted_wrt_filter)
  then have "sorted_wrt (\<lambda>a b. lru_age (fst a) (uses @ [u]) < lru_age (fst b) (uses @ [u]))
          (filter (\<lambda>e. fst e \<noteq> k) es)"
    by (rule sorted_wrt_mono_rel [rotated]) (auto simp: lru_age_snoc assms(3))
  then show ?thesis
    using assms(2,3) by (auto simp: lru_age_snoc)
qed

lemma sorted_wrt_take_list: "sorted_wrt R xs \<Longrightarrow> sorted_wrt R (take n xs)"
  by (metis append_take_drop_id sorted_wrt_append)

lemma lru_run_sorted:
  "sorted_wrt (\<lambda>a b. lru_age (fst a) uses < lru_age (fst b) uses)
     (lru_entries (fold lru_apply uses (LRU n :: ('k, 'v) LRUCache)))"
proof (induction uses rule: rev_induct)
  case Nil
  show ?case by (simp add: LRU_def)
next
  case (snoc u uses)
  let ?c = "fold lru_apply uses (LRU n :: ('k, 'v) LRUCache)"
  show ?case
  proof (cases u)
    case (LruSet k v)
    have "sorted_wrt (\<lambda>a b. lru_age (fst a) (uses @ [u]) < lru_age (fst b) (uses @ [u]))
           ((k, v) # filter (\<lambda>e. fst e \<noteq> k) (lru_entries ?c))"
      using snoc LruSet by (intro sorted_after_use) auto
    then show ?thesis
      using LruSet sorted_wrt_take_list by (simp add: lru_set_def del: sorted_wrt.simps)
  next
    case LruReset
    then show ?thesis by (simp add: lru_reset_def)
  next
    case (LruGet k)
    show ?thesis
    proof (cases "map_of (lru_entries ?c) k")
      case (Some v)
      have "sorted_wrt (\<lambda>a b. lru_age (fst a) (uses @ [u]) < lru_age (fst b) (uses @ [u]))
           ((k, v) # filter (\<lambda>e. fst e \<noteq> k) (lru_entries ?c))"
        using snoc LruGet by (intro sorted_after_use) auto
      then show ?thesis
        using LruGet Some by (simp add: lru_get_def lru_peek_def del: sorted_wrt.simps)
    next
      case None
      then have "\<forall>e \<in> set (lru_entries ?c). fst e \<noteq> k"
        by (metis map_of_eq_None_iff image_eqI)
      then have "sorted_wrt (\<lambda>a b. lru_age (fst a) (uses @ [u]) < lru_age (fst b) (uses @ [u]))
          (lru_entries ?c)"
        using snoc LruGet
        by (intro sorted_wrt_mono_rel [OF _ snoc]) (auto simp: lru_age_snoc)
      then show ?thesis
        using LruGet None by (simp add: lru_get_def lru_peek_def)
    qed
  qed
qed

lemma lru_evicts_oldest:
  fixes c :: "('k, 'v) LRUCache"
  assumes c: "c = fold lru_apply uses (LRU n)"
    and new: "k \<notin> fst ` set (lru_entries c)"
    and full: "length (lru_entries c) = n" "0 < n"
  shows "lru_entries (lru_set k v c) = (k, v) # butlast (lru_entries c)"
    and "\<forall>e \<in> set (butlast (lru_entries c)).
           lru_age (fst e) uses < lru_age (fst (last (lru_entries c))) uses"
proof -
  have m: "lru_max c = n" using lru_run_within [of uses n] c by (simp add: within_capacity_def)
  have f: "filter (\<lambda>e. fst e \<noteq> k) (lru_entries c) = lru_entries c"
    using new by (auto simp: filter_id_conv)
  obtain n' where n': "n = Suc n'" using full(2) by (cases n) auto
  show "lru_entries (lru_set k v c) = (k, v) # butlast (lru_entries c)"
    using m f full n' by (simp add: lru_set_def butlast_conv_take)
  have ne: "lru_entries c \<noteq> []" using full by auto
  have "sorted_wrt (\<lambda>a b. lru_age (fst a) uses < lru_age (fst b) uses)
          (butlast (lru_entries c) @ [last (lru_entries c)])"
    using lru_run_sorted [of uses n] c ne by simp
  then show "\<forall>e \<in> set (butlast (lru_entries c)).
           lru_age (fst e) uses < lru_age (fst (last (lru_entries c))) uses"
    unfolding sorted_wrt_append by simp
qed

lemma fold_preserves:
  assumes "\<And>x s. P s \<Longrightarrow> P (f x s)" "P s"
  shows "P (fold f xs s)"
  using assms(2) by (induction xs arbitrary: s) (auto intro: assms(1))

lemma switchMap_preserves:
  assumes "\<And>x s. P s \<Longrightarrow> P (snd (project x s))" "P s"
  shows "P (snd (obs_switchMap project xs fl s))"
  using assms(2)
proof (induction xs arbitrary: s)
  case Nil
  then show ?case by simp
next
  case (Cons x xs)
  obtain inner s1 where p: "project x s = (inner, s1)" by (cases "project x s")
  have s1: "P s1" using assms(1) [OF Cons.prems, of x] p by simp
  show ?case using p s1 Cons.IH [OF s1] by (auto split: prod.splits)
qed

lemma merge_preserves:
  assumes "\<And>sub s. sub \<in> set subs \<Longrightarrow> P s \<Longrightarrow> P (snd (sub s))" "P s"
  shows "P (snd (obs_merge subs s))"
  using assms
proof (induction subs arbitrary: s)
  case Nil
  then show ?case by simp
next
  case (Cons sub subs)
  obtain first s1 where p: "sub s = (first, s1)" by (cases "sub s")
  have s1: "P s1" using Cons.prems(1) [of sub s] Cons.prems(2) p by simp
  have "P (snd (obs_merge subs s1))"
    using Cons.IH [of s1] Cons.prems(1) s1 by simp
  then show ?case using p s1 by (auto split: prod.splits)
qed

lemma do_preserves:
  assumes "\<And>x s. P s \<Longrightarrow> P (f x s)" "P s"
  shows "P (snd (obs_do f src s))"
  using assms by (simp add: obs_do_def fold_preserves)

lemma clearClientCache_bounded: "caches_bounded s \<Longrightarrow> caches_bounded (clearClientCache filePaths s)"
proof -
  assume b: "caches_bounded s"
  have "caches_bounded (fold (\<lambda>filePath s'.
                     s'\<lparr>hgDiffCache := (hgDiffCache s')(filePath := None),
                        hgStatusCache := (hgStatusCache s')(filePath := None)\<rparr>)
               filePaths s)"
    by (rule fold_preserves [where P = caches_bounded]) (simp_all add: caches_bounded_def b [unfolded caches_bounded_def])
  then show ?thesis using b
    by (simp add: clearClientCache_def emit_def caches_bounded_def lru_reset_within)
qed

lemma clearOnSuccessExit_bounded:
  "caches_bounded s \<Longrightarrow> caches_bounded (clearOnSuccessExit m filePaths s)"
  by (cases m) (simp_all add: clearOnSuccessExit_def clearClientCache_bounded)

lemma commit_bounded:
  "caches_bounded s \<Longrightarrow> caches_bounded (snd (commit message filePaths service s))"
  "caches_bounded s \<Longrightarrow> caches_bounded (snd (amend message' amendMode filePaths service s))"
  unfolding commit_def amend_def
  by (rule do_preserves [where P = caches_bounded], erule clearOnSuccessExit_bounded, assumption)+

lemma subscriber_bounded:
  "caches_bounded s \<Longrightarrow> caches_bounded (statusChangesSubscriber ch m s)"
  by (cases ch) (simp_all add: statusChangesSubscriber_def emit_def caches_bounded_def)

lemma status_bounded:
  "caches_bounded s \<Longrightarrow> caches_bounded (snd (onStatusTrigger K ch fetched s))"
proof -
  assume b: "caches_bounded s"
  have b1: "caches_bounded (s\<lparr>isFetchingPathStatuses := isFetchingPathStatuses s @ [True]\<rparr>)"
    using b by (simp add: caches_bounded_def)
  have "caches_bounded (fold (statusChangesSubscriber ch) ms
          (s\<lparr>isFetchingPathStatuses := isFetchingPathStatuses s @ [True]\<rparr>))" for ms
    by (rule fold_preserves [where P = caches_bounded], erule subscriber_bounded, rule b1)
  then show ?thesis by (simp add: onStatusTrigger_def Let_def caches_bounded_def)
qed

lemma bookmarks_bounded:
  "caches_bounded s \<Longrightarrow> caches_bounded (onBookmarksTrigger fetchBookmarks s)"
  unfolding onBookmarksTrigger_def
  by (rule fold_preserves [where P = caches_bounded])
     (simp_all add: bookmarks_next_def caches_bounded_def)

lemma simple_bounded:
  "caches_bounded s \<Longrightarrow> caches_bounded (onRevisionsUpdate s)"
  "caches_bounded s \<Longrightarrow> caches_bounded (conflictStateChanged b s)"
  "caches_bounded s \<Longrightarrow> caches_bounded (destroy s)"
  by (simp_all add: onRevisionsUpdate_def conflictStateChanged_def destroy_def Let_def emit_def
      caches_bounded_def lru_reset_within)

lemma filter_caches:
  "revisionIdToFileChanges (snd (pathsToFetch_filter B ps s)) = revisionIdToFileChanges s
   \<and> fileContentsAtRevisionIds (snd (pathsToFetch_filter B ps s)) = fileContentsAtRevisionIds s
   \<and> fileContentsAtHead (snd (pathsToFetch_filter B ps s)) = fileContentsAtHead s"
proof (induction ps arbitrary: s)
  case Nil
  show ?case by simp
next
  case (Cons a ps)
  let ?s' = "s\<lparr>hgDiffCacheFilesUpdating := insert a (hgDiffCacheFilesUpdating s)\<rparr>"
  obtain accepted s'' where r: "pathsToFetch_filter B ps ?s' = (accepted, s'')"
    by (cases "pathsToFetch_filter B ps ?s'")
  have "revisionIdToFileChanges s'' = revisionIdToFileChanges s
     \<and> fileContentsAtRevisionIds s'' = fileContentsAtRevisionIds s
     \<and> fileContentsAtHead s'' = fileContentsAtHead s"
    using Cons.IH [of ?s'] r by simp
  then show ?case using Cons.IH [of s] r by simp
qed

lemma cachedContents_within:
  "within_capacity c n \<Longrightarrow> within_capacity (snd (cachedContents ps c)) n"
proof (induction ps arbitrary: c)
  case Nil
  then show ?case by simp
next
  case (Cons p ps)
  show ?case
    using Cons.IH [OF lru_get_within [OF Cons.prems, of p]]
    by (auto split: prod.splits)
qed

lemma fileContent_bounded:
  assumes "caches_bounded s"
  shows "caches_bounded (snd (fileContent B revision entry s))"
proof (cases entry)
  case (Pair filePath cachedContent)
  show ?thesis
  proof (cases cachedContent)
    case None
    have "caches_bounded (snd (obs_switchMap
            (\<lambda>contents s'.
               (obs_map (Pair filePath) (gitDiffContentAgainstFile B contents filePath),
                s'\<lparr>fileContentsAtHead := lru_set filePath contents (fileContentsAtHead s')\<rparr>))
            xs fl s))" for xs fl
      by (rule switchMap_preserves [where P = caches_bounded])
         (simp_all add: caches_bounded_def lru_set_within assms [unfolded caches_bounded_def])
    then show ?thesis using Pair None by (simp add: fileContent_def)
  next
    case (Some content)
    then show ?thesis using Pair assms by (simp add: fileContent_def)
  qed
qed

lemma getFileDiffs_bounded:
  assumes "caches_bounded s"
  shows "caches_bounded (snd (getFileDiffs B ps revision s))"
proof -
  obtain entries c where e: "cachedContents ps (fileContentsAtHead s) = (entries, c)"
    by (cases "cachedContents ps (fileContentsAtHead s)")
  have "within_capacity c 30"
    using cachedContents_within [of "fileContentsAtHead s" 30 ps] assms e
    by (simp add: caches_bounded_def)
  then have b: "caches_bounded (s\<lparr>fileContentsAtHead := c\<rparr>)"
    using assms by (simp add: caches_bounded_def)
  obtain merged s' where m:
    "obs_merge (map (fileContent B revision) entries) (s\<lparr>fileContentsAtHead := c\<rparr>) = (merged, s')"
    by (cases "obs_merge (map (fileContent B revision) entries) (s\<lparr>fileContentsAtHead := c\<rparr>)")
  have "caches_bounded (snd (obs_merge (map (fileContent B revision) entries)
          (s\<lparr>fileContentsAtHead := c\<rparr>)))"
    by (rule merge_preserves [where P = caches_bounded]) (auto simp: fileContent_bounded b)
  then have "caches_bounded s'" using m by simp
  then show ?thesis using e m by (simp add: getFileDiffs_def)
qed

lemma applyFileDiffs_bounded:
  assumes "caches_bounded s"
  shows "caches_bounded (applyFileDiffs ps ds s)"
proof -
  have "caches_bounded (fold (\<lambda>(filePath, diffInfo) s'.
                       s'\<lparr>hgDiffCache := (hgDiffCache s')(filePath \<mapsto> diffInfo)\<rparr>) ds s)"
    by (rule fold_preserves [where P = caches_bounded])
       (auto simp: caches_bounded_def assms [unfolded caches_bounded_def])
  then show ?thesis by (simp add: applyFileDiffs_def Let_def emit_def caches_bounded_def)
qed

lemma updateDiffInfo_bounded:
  assumes "caches_bounded s"
  shows "caches_bounded (snd (updateDiffInfo B filePaths s))"
proof -
  obtain ps s1 where f: "pathsToFetch_filter B filePaths s = (ps, s1)"
    by (cases "pathsToFetch_filter B filePaths s")
  have s1: "caches_bounded s1"
    using filter_caches [of B filePaths s] f assms by (simp add: caches_bounded_def)
  obtain heads tap where h: "getCurrentHeadId B s1 = (heads, tap)"
    by (cases "getCurrentHeadId B s1")
  have tap: "caches_bounded (tap x s')" if "caches_bounded s'" for x s'
    using h that by (auto simp: getCurrentHeadId_def caches_bounded_def split: option.splits)
  have "caches_bounded (snd (obs_switchMap
                   (\<lambda>currentHeadId s'.
                      (case currentHeadId of
                         None \<Rightarrow> (obs_of [], tap currentHeadId s')
                       | Some headId \<Rightarrow>
                           (case getFileDiffs B ps headId (tap currentHeadId s') of
                              (diffs, s3) \<Rightarrow> obs_do (applyFileDiffs ps) diffs s3)))
                   (emissions heads) (failed heads) s1))"
  proof (rule switchMap_preserves [where P = caches_bounded, OF _ s1])
    fix x :: "string option" and s' :: "'a sharedMembers"
    assume b: "caches_bounded s'"
    show "caches_bounded (snd (case x of
                         None \<Rightarrow> (obs_of [], tap x s')
                       | Some headId \<Rightarrow>
                           (case getFileDiffs B ps headId (tap x s') of
                              (diffs, s3) \<Rightarrow> obs_do (applyFileDiffs ps) diffs s3)))"
    proof (cases x)
      case None
      then show ?thesis using tap [OF b] by simp
    next
      case (Some headId)
      obtain diffs s3 where g: "getFileDiffs B ps headId (tap x s') = (diffs, s3)"
        by (cases "getFileDiffs B ps headId (tap x s')")
      have "caches_bounded s3"
        using getFileDiffs_bounded [OF tap [OF b], of B ps headId x] g by simp
      then have "caches_bounded (snd (obs_do (applyFileDiffs ps) diffs s3))"
        using do_preserves [where P = caches_bounded, of "applyFileDiffs ps" s3 diffs]
        by (simp add: applyFileDiffs_bounded)
      then show ?thesis using Some g by simp
    qed
  qed
  then show ?thesis using f h s1 by (simp add: updateDiffInfo_def)
qed

lemma contentMaps_do_bounded:
  assumes "caches_bounded s1"
  shows "caches_bounded (snd (obs_do (\<lambda>contents s'.
                              s'\<lparr>contentMaps := (contentMaps s')
                                    (a := (contentMaps s' a) (filePath \<mapsto> contents))\<rparr>)
                      service s1))"
  using do_preserves [where P = caches_bounded, of
      "\<lambda>contents s'. s'\<lparr>contentMaps := (contentMaps s')
                                    (a := (contentMaps s' a) (filePath \<mapsto> contents))\<rparr>"
      s1 service] assms
  by (simp add: caches_bounded_def)

lemma fetchFileContentAtRevision_bounded:
  assumes "caches_bounded s"
  shows "caches_bounded (snd (fetchFileContentAtRevision filePath revision service s))"
proof -
  obtain found c where g: "lru_get revision (fileContentsAtRevisionIds s) = (found, c)"
    by (cases "lru_get revision (fileContentsAtRevisionIds s)")
  have c: "within_capacity c 20"
    using lru_get_within [of "fileContentsAtRevisionIds s" 20 revision] assms g
    by (simp add: caches_bounded_def)
  show ?thesis
  proof (cases found)
    case (Some address)
    have s1: "caches_bounded (s\<lparr>fileContentsAtRevisionIds := c\<rparr>)"
      using assms c by (simp add: caches_bounded_def)
    show ?thesis
      using g Some s1 contentMaps_do_bounded [OF s1, of address filePath service]
      by (simp add: fetchFileContentAtRevision_def split: option.splits)
  next
    case None
    let ?s1 = "s\<lparr>contentMaps := (contentMaps s)(nextMap s := Map.empty),
                        nextMap := Suc (nextMap s),
                        fileContentsAtRevisionIds := lru_set revision (nextMap s) c\<rparr>"
    have s1: "caches_bounded ?s1"
      using assms lru_set_within [OF c, of revision "nextMap s"] by (simp add: caches_bounded_def)
    show ?thesis
      using g None contentMaps_do_bounded [OF s1, of "nextMap s" filePath service]
      by (simp add: fetchFileContentAtRevision_def)
  qed
qed

lemma fetchFilesChangedAtRevision_bounded:
  assumes "caches_bounded s"
  shows "caches_bounded (snd (fetchFilesChangedAtRevision revision service s))"
proof -
  obtain found c where g: "lru_get revision (revisionIdToFileChanges s) = (found, c)"
    by (cases "lru_get revision (revisionIdToFileChanges s)")
  have c: "within_capacity c 100"
    using lru_get_within [of "revisionIdToFileChanges s" 100 revision] assms g
    by (simp add: caches_bounded_def)
  have s1: "caches_bounded (s\<lparr>revisionIdToFileChanges := c\<rparr>)"
    using assms c by (simp add: caches_bounded_def)
  have "caches_bounded (snd (obs_do (\<lambda>fetchedChanges s'.
                    s'\<lparr>revisionIdToFileChanges :=
                         lru_set revision fetchedChanges (revisionIdToFileChanges s')\<rparr>)
            service (s\<lparr>revisionIdToFileChanges := c\<rparr>)))"
    using do_preserves [where P = caches_bounded, of
      "\<lambda>fetchedChanges s'. s'\<lparr>revisionIdToFileChanges :=
                         lru_set revision fetchedChanges (revisionIdToFileChanges s')\<rparr>"
      "s\<lparr>revisionIdToFileChanges := c\<rparr>" service] s1
    by (simp add: caches_bounded_def lru_set_within)
  then show ?thesis
    using g s1 by (cases found) (simp_all add: fetchFilesChangedAtRevision_def)
qed

lemma client_step_bounded: "caches_bounded s \<Longrightarrow> caches_bounded (client_step K ev s)"
  by (cases ev)
     (simp_all add: commit_bounded status_bounded bookmarks_bounded simple_bounded
        updateDiffInfo_bounded fetchFileContentAtRevision_bounded
        fetchFilesChangedAtRevision_bounded checkoutReference_def revert_def)

lemma constructor_bounded: "caches_bounded (constructor repoPath workingDir subs)"
  by (simp add: caches_bounded_def constructor_def LRU_within)

lemma client_run_bounded:
  "caches_bounded (fold (client_step K) evs (constructor repoPath workingDir subs))"
  by (rule fold_preserves [where P = caches_bounded])
     (simp_all add: client_step_bounded constructor_bounded)


text \<open>
  Claim C9. Whatever happens to a client after its construction, the cache of file
  changes at a revision holds at most 100 entries, the cache of file contents at a
  revision at most 20 and the cache of file contents at head at most 30. A cache of
  capacity \<open>n\<close> never holds more than \<open>n\<close> entries, and when a new key is set in a
  full cache, every entry is kept but one, which is the least recently used: every
  other key was looked up or set more recently.
\<close>

theorem bounded_caches_evict_least_recently_used:
  "within_capacity (revisionIdToFileChanges
       (fold (client_step K) evs (constructor repoPath workingDir subs))) 100
   \<and> within_capacity (fileContentsAtRevisionIds
       (fold (client_step K) evs (constructor repoPath workingDir subs))) 20
   \<and> within_capacity (fileContentsAtHead
       (fold (client_step K) evs (constructor repoPath workingDir subs))) 30
   \<and> within_capacity (fold lru_apply uses (LRU n)) n
   \<and> (k \<notin> fst ` set (lru_entries (fold lru_apply uses (LRU n)))
        \<and> length (lru_entries (fold lru_apply uses (LRU n))) = n \<and> 0 < n \<longrightarrow>
      lru_entries (lru_set k v (fold lru_apply uses (LRU n)))
        = (k, v) # butlast (lru_entries (fold lru_apply uses (LRU n)))
      \<and> (\<forall>e \<in> set (butlast (lru_entries (fold lru_apply uses (LRU n)))).
           lru_age (fst e) uses
             < lru_age (fst (last (lru_entries (fold lru_apply uses (LRU n))))) uses))"
  using client_run_bounded [of K evs repoPath workingDir subs] lru_run_within [of uses n]
    lru_evicts_oldest(1) [OF refl, where k = k and uses = uses and n = n and v = v]
    lru_evicts_oldest(2) [OF refl, where k = k and uses = uses and n = n]
  by (simp add: caches_bounded_def)

theorem bounded_caches_evict_least_recently_used_witness:
  "lru_entries sample_cache = [(''a'', 1), (''b'', 2)]
   \<and> lru_max sample_cache = 2
   \<and> lru_entries (lru_set ''c'' 3 sample_cache) = [(''c'', 3), (''a'', 1)]
   \<and> lru_age ''a'' sample_uses < lru_age ''b'' sample_uses"
proof -
  have e: "lru_entries (fold lru_apply sample_uses (LRU 2)) = [(''a'', 1), (''b'', 2)]"
    "lru_max (fold lru_apply sample_uses (LRU 2)) = 2"
    by (simp_all add: sample_uses_def LRU_def lru_set_def lru_get_def lru_peek_def)
  show ?thesis
    using bounded_caches_evict_least_recently_used
        [of sample_constants "[] :: unit client_event list" "''/repo/.hg''" "''/repo''" None sample_uses 2 "''c''" 3] e
    by (simp add: sample_cache_def)
qed

end
